theory Spec2Isabelle
  imports Complex_Main
begin

section \<open>Floor monitoring: identity tracking and absence alerts\<close>

text \<open>
  A shallow embedding of \<^verbatim>\<open>app/tracking_system.py\<close>, \<^verbatim>\<open>app/alert_manager.py\<close> and the
  processing loop of \<^verbatim>\<open>app/main.py\<close>.

  Conventions of the embedding.
  \<^item> A Python \<^verbatim>\<open>dict\<close> is an association list in insertion order; a well-formed one has
    distinct keys. Mutating an object that was fetched from a dict replaces the value
    stored under its key. The source reads \<^verbatim>\<open>d[k]\<close> only for keys it has just taken
    from \<open>d\<close> itself, so the \<^verbatim>\<open>KeyError\<close> of a missing key cannot arise; where the
    model meets a missing key it leaves the dict as it is.
  \<^item> \<^verbatim>\<open>datetime\<close> values are integers (microseconds); every \<^verbatim>\<open>datetime.now()\<close> read
    made during one call is the one instant \<open>now\<close> passed to the modelled call.
  \<^item> Python floats (\<^verbatim>\<open>confidence\<close>, \<^verbatim>\<open>max_distance\<close>) are real numbers.
  \<^item> \<^verbatim>\<open>CentroidTracker.update\<close> is modelled twice. \<open>update_with\<close> is the general model: the
    floats that \<^verbatim>\<open>dist.cdist\<close> returns, the order in which \<^verbatim>\<open>numpy.argsort\<close> arranges equal
    values and the order in which a \<^verbatim>\<open>for\<close> loop visits a Python \<^verbatim>\<open>set\<close> are parameters,
    constrained only by what the libraries promise. \<open>update\<close> is the instance that can be
    run: exact Euclidean distances, kept as their squares, which are integers (every
    comparison the code makes on distances has the same outcome on their squares); a
    stable sort; sets visited in ascending order. Lemma \<open>update_is_update_with\<close> shows
    that it is this instance. The properties that depend on the matching (which
    detection goes to which identity, and which is registered as a new one) are stated
    and proved for \<open>update_with\<close>.
\<close>

subsection \<open>Dictionaries\<close>

fun dict_set :: "('k \<times> 'v) list \<Rightarrow> 'k \<Rightarrow> 'v \<Rightarrow> ('k \<times> 'v) list" where
  "dict_set [] k v = [(k, v)]"
| "dict_set ((k', v') # kvs) k v =
     (if k' = k then (k, v) # kvs else (k', v') # dict_set kvs k v)"

text \<open>\<^verbatim>\<open>obj = d[k]; obj.field = ...\<close>: the value under \<open>k\<close> is replaced in place.\<close>

definition dict_modify :: "('k \<times> 'v) list \<Rightarrow> 'k \<Rightarrow> ('v \<Rightarrow> 'v) \<Rightarrow> ('k \<times> 'v) list" where
  "dict_modify d k f = (case map_of d k of None \<Rightarrow> d | Some v \<Rightarrow> dict_set d k (f v))"

fun dict_del :: "('k \<times> 'v) list \<Rightarrow> 'k \<Rightarrow> ('k \<times> 'v) list" where
  "dict_del [] k = []"
| "dict_del ((k', v') # kvs) k = (if k' = k then kvs else (k', v') # dict_del kvs k)"

subsection \<open>Data model\<close>

type_synonym time = int
type_synonym point = "int \<times> int"
type_synonym box = "int \<times> int \<times> int \<times> int"

record Detection =
  det_bbox :: box
  det_confidence :: real
  center :: point
  frame_id :: int

record TrackedPerson =
  tracking_id :: int
  employee_id :: "string option"
  centroid :: point
  bbox :: box
  first_seen :: time
  last_seen :: time
  disappeared_frames :: int
  is_active :: bool
  camera_id :: string
  confidence :: real

record CentroidTracker =
  next_object_id :: int
  objects :: "(int \<times> TrackedPerson) list"
  max_disappeared :: int
  max_distance :: real

definition CentroidTracker_init :: "int \<Rightarrow> real \<Rightarrow> CentroidTracker" where
  "CentroidTracker_init max_disappeared' max_distance' =
     \<lparr>next_object_id = 1, objects = [], max_disappeared = max_disappeared',
      max_distance = max_distance'\<rparr>"

subsection \<open>CentroidTracker.register and deregister\<close>

definition new_person :: "int \<Rightarrow> point \<Rightarrow> box \<Rightarrow> real \<Rightarrow> string \<Rightarrow> time \<Rightarrow> TrackedPerson" where
  "new_person tid c b conf cam now =
     \<lparr>tracking_id = tid, employee_id = None, centroid = c, bbox = b, first_seen = now,
      last_seen = now, disappeared_frames = 0, is_active = True, camera_id = cam,
      confidence = conf\<rparr>"

definition register ::
  "CentroidTracker \<Rightarrow> point \<Rightarrow> box \<Rightarrow> real \<Rightarrow> string \<Rightarrow> time \<Rightarrow> TrackedPerson \<times> CentroidTracker" where
  "register t c b conf cam now =
     (let tid = next_object_id t;
          tracked_person = new_person tid c b conf cam now
      in (tracked_person,
          t\<lparr>next_object_id := tid + 1, objects := dict_set (objects t) tid tracked_person\<rparr>))"

definition deregister :: "CentroidTracker \<Rightarrow> int \<Rightarrow> CentroidTracker" where
  "deregister t tid = t\<lparr>objects := dict_modify (objects t) tid (\<lambda>person. person\<lparr>is_active := False\<rparr>)\<rparr>"

subsection \<open>Distance matrix, argmin and argsort\<close>

definition euclidean :: "point \<Rightarrow> point \<Rightarrow> real" where
  "euclidean p q = sqrt (real_of_int ((fst p - fst q)\<^sup>2 + (snd p - snd q)\<^sup>2))"

definition sq_dist :: "point \<Rightarrow> point \<Rightarrow> int" where
  "sq_dist p q = (fst p - fst q)\<^sup>2 + (snd p - snd q)\<^sup>2"

text \<open>
  \<^verbatim>\<open>dist.cdist(A, B)\<close>: one row per point of \<open>A\<close>, one column per point of \<open>B\<close>; the
  entry is kept as the squared distance.
\<close>

definition cdist :: "point list \<Rightarrow> point list \<Rightarrow> int list list" where
  "cdist A B = map (\<lambda>p. map (sq_dist p) B) A"

text \<open>
  \<^verbatim>\<open>D[row, col] > self.max_distance\<close> on a squared entry \<open>d2\<close>: a distance exceeds a
  negative bound always, and a non-negative bound when its square exceeds the bound's.
\<close>

definition exceeds :: "int \<Rightarrow> real \<Rightarrow> bool" where
  "exceeds d2 bound = (bound < 0 \<or> real_of_int d2 > bound * bound)"

fun index_of :: "'a \<Rightarrow> 'a list \<Rightarrow> nat" where
  "index_of x [] = 0"
| "index_of x (y # ys) = (if y = x then 0 else Suc (index_of x ys))"

text \<open>\<^verbatim>\<open>numpy.argmin\<close>: the index of the first occurrence of the minimum.\<close>

definition argmin :: "('a::linorder) list \<Rightarrow> nat" where
  "argmin xs = index_of (min_list xs) xs"

text \<open>
  One \<^verbatim>\<open>numpy.argsort\<close>: the indices in ascending order of their values, equal values
  keeping their index order. (numpy's default sort leaves the order of equal values
  open; \<open>argsort_spec\<close> below says what every \<^verbatim>\<open>argsort\<close> does.)
\<close>

definition argsort :: "('a::linorder) list \<Rightarrow> nat list" where
  "argsort xs = sort_key (\<lambda>i. xs ! i) [0..<length xs]"

subsection \<open>CentroidTracker.update\<close>

text \<open>
  Lines 94--99 and 156--160: the identity under \<open>tid\<close> was not seen in this frame.
\<close>

definition mark_disappeared :: "time \<Rightarrow> CentroidTracker \<Rightarrow> int \<Rightarrow> CentroidTracker" where
  "mark_disappeared now t tid =
     (let t1 = t\<lparr>objects := dict_modify (objects t) tid
                  (\<lambda>person. person\<lparr>disappeared_frames := disappeared_frames person + 1,
                                    last_seen := now\<rparr>)\<rparr>
      in case map_of (objects t1) tid of
           None \<Rightarrow> t1
         | Some person \<Rightarrow>
             if disappeared_frames person > max_disappeared t1 then deregister t1 tid else t1)"

text \<open>The body of the loop over \<^verbatim>\<open>list(self.objects.keys())\<close> of the empty-frame branch.\<close>

definition empty_frame_body :: "string \<Rightarrow> time \<Rightarrow> CentroidTracker \<Rightarrow> int \<Rightarrow> CentroidTracker" where
  "empty_frame_body cam now t tid =
     (case map_of (objects t) tid of
        None \<Rightarrow> t
      | Some person \<Rightarrow>
          if is_active person \<and> camera_id person = cam then mark_disappeared now t tid else t)"

text \<open>
  The body of the loop over \<^verbatim>\<open>zip(rows, cols)\<close>; the state is the tracker together with
  \<^verbatim>\<open>used_rows\<close> and \<^verbatim>\<open>used_cols\<close>.
\<close>

definition match_body ::
  "int list list \<Rightarrow> int list \<Rightarrow> Detection list \<Rightarrow> time \<Rightarrow>
   CentroidTracker \<times> nat set \<times> nat set \<Rightarrow> nat \<times> nat \<Rightarrow> CentroidTracker \<times> nat set \<times> nat set" where
  "match_body D object_ids detections now st rc =
     (case st of (t, used_rows, used_cols) \<Rightarrow> case rc of (row, col) \<Rightarrow>
        if row \<in> used_rows \<or> col \<in> used_cols then st
        else if exceeds (D ! row ! col) (max_distance t) then st
        else
          let tid = object_ids ! row;
              det = detections ! col
          in (t\<lparr>objects := dict_modify (objects t) tid
                   (\<lambda>person. person\<lparr>centroid := center det, bbox := det_bbox det,
                                     confidence := det_confidence det,
                                     disappeared_frames := 0, last_seen := now\<rparr>)\<rparr>,
              insert row used_rows, insert col used_cols))"

definition register_det :: "string \<Rightarrow> time \<Rightarrow> CentroidTracker \<Rightarrow> Detection \<Rightarrow> CentroidTracker" where
  "register_det cam now t det =
     snd (register t (center det) (det_bbox det) (det_confidence det) cam now)"

definition active_objects :: "CentroidTracker \<Rightarrow> string \<Rightarrow> (int \<times> TrackedPerson) list" where
  "active_objects t cam = filter (\<lambda>(k, v). is_active v \<and> camera_id v = cam) (objects t)"

definition update :: "CentroidTracker \<Rightarrow> Detection list \<Rightarrow> string \<Rightarrow> time \<Rightarrow> CentroidTracker" where
  "update t detections cam now =
     (if length detections = 0 then
        foldl (empty_frame_body cam now) t (map fst (objects t))
      else
        let input_centroids = map center detections;
            active = active_objects t cam
        in if length active = 0 then foldl (register_det cam now) t detections
           else
             let object_ids = map fst active;
                 object_centroids = map (\<lambda>(k, obj). centroid obj) active;
                 D = cdist object_centroids input_centroids;
                 rows = argsort (map min_list D);
                 cols = map (\<lambda>row. argmin (D ! row)) rows;
                 (t1, used_rows, used_cols) =
                    foldl (match_body D object_ids detections now) (t, {}, {}) (zip rows cols);
                 unused_rows = filter (\<lambda>row. row \<notin> used_rows) [0..<length D];
                 t2 = foldl (\<lambda>t' row. mark_disappeared now t' (object_ids ! row)) t1 unused_rows;
                 unused_cols = filter (\<lambda>col. col \<notin> used_cols) [0..<length detections]
             in foldl (\<lambda>t' col. register_det cam now t' (detections ! col)) t2 unused_cols)"

definition get_active_persons :: "CentroidTracker \<Rightarrow> string option \<Rightarrow> (int \<times> TrackedPerson) list" where
  "get_active_persons t cam =
     (case cam of
        Some c \<Rightarrow> (if c \<noteq> [] then filter (\<lambda>(k, v). is_active v \<and> camera_id v = c) (objects t)
                   else filter (\<lambda>(k, v). is_active v) (objects t))
      | None \<Rightarrow> filter (\<lambda>(k, v). is_active v) (objects t))"

definition set_employee_id :: "CentroidTracker \<Rightarrow> int \<Rightarrow> string \<Rightarrow> CentroidTracker" where
  "set_employee_id t tid emp =
     t\<lparr>objects := dict_modify (objects t) tid (\<lambda>person. person\<lparr>employee_id := Some emp\<rparr>)\<rparr>"

subsection \<open>TrackingManager\<close>

text \<open>
  \<^verbatim>\<open>config.TRACKING_MAX_DISAPPEARED\<close> and \<^verbatim>\<open>config.TRACKING_MAX_DISTANCE\<close>.
\<close>

definition TRACKING_MAX_DISAPPEARED :: int where
  "TRACKING_MAX_DISAPPEARED = 30"

definition TRACKING_MAX_DISTANCE :: real where
  "TRACKING_MAX_DISTANCE = 50"

text \<open>
  A frame is what the face recogniser reads from it: \<^verbatim>\<open>identify_face(frame, bbox)\<close> is
  \<open>frame bbox\<close>. The field \<open>face_recognition\<close> says whether an engine was configured.
\<close>

type_synonym frame = "box \<Rightarrow> string option"

record TrackingManager =
  trackers :: "(string \<times> CentroidTracker) list"
  face_recognition :: bool

definition TrackingManager_init :: "bool \<Rightarrow> TrackingManager" where
  "TrackingManager_init engine = \<lparr>trackers = [], face_recognition = engine\<rparr>"

definition get_tracker :: "TrackingManager \<Rightarrow> string \<Rightarrow> CentroidTracker \<times> TrackingManager" where
  "get_tracker m cam =
     (case map_of (trackers m) cam of
        Some t \<Rightarrow> (t, m)
      | None \<Rightarrow>
          (let t = CentroidTracker_init TRACKING_MAX_DISAPPEARED TRACKING_MAX_DISTANCE
           in (t, m\<lparr>trackers := dict_set (trackers m) cam t\<rparr>)))"

definition identify_body :: "frame \<Rightarrow> CentroidTracker \<Rightarrow> int \<Rightarrow> CentroidTracker" where
  "identify_body fr t tid =
     (case map_of (objects t) tid of
        None \<Rightarrow> t
      | Some person \<Rightarrow>
          if is_active person \<and> employee_id person = None then
            (case fr (bbox person) of
               None \<Rightarrow> t
             | Some emp \<Rightarrow> if emp \<noteq> [] then set_employee_id t tid emp else t)
          else t)"

text \<open>
  \<^verbatim>\<open>TrackingManager.update\<close>; the tracker object is shared with the manager's dict, so
  the updated tracker is stored back under its camera.
\<close>

definition tm_update ::
  "TrackingManager \<Rightarrow> string \<Rightarrow> Detection list \<Rightarrow> frame option \<Rightarrow> time \<Rightarrow> TrackingManager" where
  "tm_update m cam detections fr now =
     (let (tracker, m1) = get_tracker m cam;
          tracker1 = update tracker detections cam now;
          tracker2 =
            (case fr of
               None \<Rightarrow> tracker1
             | Some f \<Rightarrow>
                 if face_recognition m1
                 then foldl (identify_body f) tracker1 (map fst (objects tracker1))
                 else tracker1)
      in m1\<lparr>trackers := dict_set (trackers m1) cam tracker2\<rparr>)"

definition tm_get_active_persons ::
  "TrackingManager \<Rightarrow> string option \<Rightarrow> (int \<times> TrackedPerson) list \<times> TrackingManager" where
  "tm_get_active_persons m cam =
     (if cam \<noteq> None \<and> cam \<noteq> Some [] then
        (let (tracker, m1) = get_tracker m (the cam) in (get_active_persons tracker None, m1))
      else
        (foldl (\<lambda>all_persons tracker.
                  foldl (\<lambda>d (k, v). dict_set d k v) all_persons (get_active_persons tracker None))
           [] (map snd (trackers m)), m))"

definition get_newly_left_persons ::
  "TrackingManager \<Rightarrow> string \<Rightarrow> TrackedPerson list \<times> TrackingManager" where
  "get_newly_left_persons m cam =
     (let (tracker, m1) = get_tracker m cam
      in (filter (\<lambda>person. \<not> is_active person \<and> camera_id person = cam \<and>
                            disappeared_frames person = max_disappeared tracker + 1)
            (map snd (objects tracker)), m1))"

subsection \<open>Alert and AlertManager\<close>

record Alert =
  alert_tracking_id :: int
  alert_employee_id :: string
  left_at :: time
  timeout_minutes :: int
  alert_time :: time
  triggered :: bool
  acknowledged :: bool

text \<open>\<^verbatim>\<open>timedelta(minutes=m)\<close> in microseconds.\<close>

definition timedelta_minutes :: "int \<Rightarrow> time" where
  "timedelta_minutes m = m * 60000000"

definition Alert_init :: "int \<Rightarrow> string \<Rightarrow> time \<Rightarrow> int \<Rightarrow> Alert" where
  "Alert_init tid emp left timeout =
     \<lparr>alert_tracking_id = tid, alert_employee_id = emp, left_at = left,
      timeout_minutes = timeout, alert_time = left + timedelta_minutes timeout,
      triggered = False, acknowledged = False\<rparr>"

definition should_trigger :: "Alert \<Rightarrow> time \<Rightarrow> bool" where
  "should_trigger a now = (\<not> triggered a \<and> now \<ge> alert_time a)"

text \<open>
  The calls that \<^verbatim>\<open>_trigger_alert\<close> makes to its collaborators, in the order made:
  the database record, the desktop notification, the sound, and each registered
  callback (named by a number). Whether a collaborator succeeds is outside the model;
  the source catches and logs each failure and goes on. A callback is taken not to
  change the alert manager.
\<close>

datatype effect =
    CreateAlert int string time int
  | ShowNotification int
  | PlayAlertSound
  | Callback nat int

definition effect_alert :: "effect \<Rightarrow> int option" where
  "effect_alert e =
     (case e of CreateAlert tid _ _ _ \<Rightarrow> Some tid | ShowNotification tid \<Rightarrow> Some tid
      | PlayAlertSound \<Rightarrow> None | Callback _ tid \<Rightarrow> Some tid)"

record AlertManager =
  am_timeout_minutes :: int
  pending_alerts :: "(int \<times> Alert) list"
  alert_callbacks :: "nat list"
  effects :: "effect list"

definition ABSENCE_TIMEOUT_MINUTES :: int where
  "ABSENCE_TIMEOUT_MINUTES = 20"

definition ALERT_SOUND_ENABLED :: bool where
  "ALERT_SOUND_ENABLED = True"

definition AlertManager_init :: "int option \<Rightarrow> AlertManager" where
  "AlertManager_init timeout =
     \<lparr>am_timeout_minutes =
        (case timeout of None \<Rightarrow> ABSENCE_TIMEOUT_MINUTES
         | Some m \<Rightarrow> if m \<noteq> 0 then m else ABSENCE_TIMEOUT_MINUTES),
      pending_alerts = [], alert_callbacks = [], effects = []\<rparr>"

definition register_callback :: "AlertManager \<Rightarrow> nat \<Rightarrow> AlertManager" where
  "register_callback am cb = am\<lparr>alert_callbacks := alert_callbacks am @ [cb]\<rparr>"

definition add_pending_alert :: "AlertManager \<Rightarrow> TrackedPerson \<Rightarrow> AlertManager" where
  "add_pending_alert am person =
     (if map_of (pending_alerts am) (tracking_id person) \<noteq> None then am
      else
        let alert = Alert_init (tracking_id person)
                      (case employee_id person of
                         None \<Rightarrow> ''Unknown''
                       | Some e \<Rightarrow> if e \<noteq> [] then e else ''Unknown'')
                      (last_seen person) (am_timeout_minutes am)
        in am\<lparr>pending_alerts := dict_set (pending_alerts am) (tracking_id person) alert\<rparr>)"

definition cancel_alert :: "AlertManager \<Rightarrow> int \<Rightarrow> AlertManager" where
  "cancel_alert am tid =
     (case map_of (pending_alerts am) tid of
        None \<Rightarrow> am
      | Some alert \<Rightarrow>
          if \<not> triggered alert then am\<lparr>pending_alerts := dict_del (pending_alerts am) tid\<rparr>
          else am)"

text \<open>
  \<^verbatim>\<open>_trigger_alert(alert)\<close> for the alert object stored under \<open>tid\<close>.
\<close>

definition trigger_effects :: "nat list \<Rightarrow> Alert \<Rightarrow> effect list" where
  "trigger_effects callbacks alert =
     [CreateAlert (alert_tracking_id alert) (alert_employee_id alert) (left_at alert)
        (timeout_minutes alert),
      ShowNotification (alert_tracking_id alert)] @
     (if ALERT_SOUND_ENABLED then [PlayAlertSound] else []) @
     map (\<lambda>cb. Callback cb (alert_tracking_id alert)) callbacks"

definition trigger_alert :: "AlertManager \<Rightarrow> int \<Rightarrow> AlertManager" where
  "trigger_alert am tid =
     (case map_of (pending_alerts am) tid of
        None \<Rightarrow> am
      | Some alert \<Rightarrow>
          am\<lparr>pending_alerts := dict_set (pending_alerts am) tid (alert\<lparr>triggered := True\<rparr>),
             effects := effects am @ trigger_effects (alert_callbacks am) alert\<rparr>)"

definition check_alerts :: "AlertManager \<Rightarrow> time \<Rightarrow> AlertManager" where
  "check_alerts am now =
     (let alerts_to_trigger = filter (\<lambda>(tid, alert). should_trigger alert now) (pending_alerts am)
      in foldl trigger_alert am (map fst alerts_to_trigger))"

definition get_pending_alerts :: "AlertManager \<Rightarrow> Alert list" where
  "get_pending_alerts am = map snd (pending_alerts am)"

definition get_triggered_alerts :: "AlertManager \<Rightarrow> Alert list" where
  "get_triggered_alerts am =
     filter (\<lambda>alert. triggered alert \<and> \<not> acknowledged alert) (map snd (pending_alerts am))"

definition acknowledge_alert :: "AlertManager \<Rightarrow> int \<Rightarrow> AlertManager" where
  "acknowledge_alert am tid =
     am\<lparr>pending_alerts := dict_modify (pending_alerts am) tid (\<lambda>alert. alert\<lparr>acknowledged := True\<rparr>)\<rparr>"

text \<open>
  A well-formed pending set: a dict (distinct keys) in which every alert is stored under
  its own tracking id, as \<^verbatim>\<open>add_pending_alert\<close> stores it.
\<close>

definition alerts_wf :: "AlertManager \<Rightarrow> bool" where
  "alerts_wf am =
     (distinct (map fst (pending_alerts am)) \<and>
      list_all (\<lambda>(k, a). alert_tracking_id a = k) (pending_alerts am))"

text \<open>The calls made to collaborators on behalf of the alert of one tracking id.\<close>

definition effects_of :: "int \<Rightarrow> effect list \<Rightarrow> effect list" where
  "effects_of tid es = filter (\<lambda>e. effect_alert e = Some tid) es"

subsection \<open>A departure scenario\<close>

text \<open>
  Tracking id 7 left at time 0; the manager has a timeout of 20 minutes and one observer.
\<close>

definition departed_person :: TrackedPerson where
  "departed_person = (new_person 7 (120, 80) (100, 40, 40, 80) 1 ''cam1'' 0)\<lparr>is_active := False\<rparr>"

definition scenario_alerts :: AlertManager where
  "scenario_alerts =
     add_pending_alert (register_callback (AlertManager_init (Some 20)) 0) departed_person"

subsection \<open>Auxiliary notions for the tracker\<close>

text \<open>
  A well-formed tracker: \<^verbatim>\<open>objects\<close> is a dict (distinct keys), every person is stored
  under its own tracking id, and every id in use is below \<^verbatim>\<open>next_object_id\<close>. A fresh
  tracker is well formed and \<^verbatim>\<open>update\<close> keeps it so.
\<close>

definition tracker_inv :: "CentroidTracker \<Rightarrow> bool" where
  "tracker_inv t =
     (distinct (map fst (objects t)) \<and>
      list_all (\<lambda>(k, p). tracking_id p = k \<and> k < next_object_id t) (objects t))"

text \<open>What lines 94--99 and 156--160 do to the person they find.\<close>

definition disappear :: "int \<Rightarrow> time \<Rightarrow> TrackedPerson \<Rightarrow> TrackedPerson" where
  "disappear md now p =
     p\<lparr>disappeared_frames := disappeared_frames p + 1, last_seen := now,
       is_active := (is_active p \<and> disappeared_frames p + 1 \<le> md)\<rparr>"

text \<open>What lines 142--146 do to the person matched with detection \<open>det\<close>.\<close>

definition matched :: "time \<Rightarrow> Detection \<Rightarrow> TrackedPerson \<Rightarrow> TrackedPerson" where
  "matched now det p =
     p\<lparr>centroid := center det, bbox := det_bbox det, confidence := det_confidence det,
       disappeared_frames := 0, last_seen := now\<rparr>"

text \<open>Applying a function to the value stored under one key of a dict.\<close>

definition upd_entry :: "'k \<Rightarrow> ('v \<Rightarrow> 'v) \<Rightarrow> ('k \<times> 'v) list \<Rightarrow> ('k \<times> 'v) list" where
  "upd_entry k g d = map (\<lambda>(k', v). (k', if k' = k then g v else v)) d"

text \<open>Consecutive frames without detections for one camera, read at the given instants.\<close>

definition feed_empty :: "CentroidTracker \<Rightarrow> string \<Rightarrow> time list \<Rightarrow> CentroidTracker" where
  "feed_empty t cam nows = foldl (\<lambda>t' now. update t' [] cam now) t nows"

subsection \<open>A tracking scenario\<close>

text \<open>
  A detection centred at \<open>c\<close> with a 50 by 100 box, as in \<^verbatim>\<open>tests/test_tracking.py\<close>, and
  the tracker of that test (\<^verbatim>\<open>max_disappeared=5, max_distance=50\<close>) after one frame
  with one detection at time 0, and after a frame with two.
\<close>

definition detection_at :: "point \<Rightarrow> Detection" where
  "detection_at c =
     \<lparr>det_bbox = (fst c - 25, snd c - 50, 50, 100), det_confidence = 9 / 10, center = c,
      frame_id = 1\<rparr>"

definition one_person_tracker :: CentroidTracker where
  "one_person_tracker = update (CentroidTracker_init 5 50) [detection_at (125, 150)] ''cam1'' 0"

definition two_person_tracker :: CentroidTracker where
  "two_person_tracker =
     update (CentroidTracker_init 5 50) [detection_at (125, 150), detection_at (325, 250)] ''cam1'' 0"

subsection \<open>The pairs assigned by one update\<close>

text \<open>
  The iterations of the loop over \<^verbatim>\<open>zip(rows, cols)\<close> that reach the assignment (lines
  138--149), in order: the same tests as \<open>match_body\<close>, keeping the pair instead of
  updating the person. Lemma \<open>match_loop_trace\<close> below ties the two together.
\<close>

fun match_trace :: "real \<Rightarrow> int list list \<Rightarrow> (nat \<times> nat) list \<Rightarrow> nat set \<Rightarrow> nat set \<Rightarrow> (nat \<times> nat) list" where
  "match_trace bound D [] used_rows used_cols = []"
| "match_trace bound D ((row, col) # rest) used_rows used_cols =
     (if row \<in> used_rows \<or> col \<in> used_cols then match_trace bound D rest used_rows used_cols
      else if exceeds (D ! row ! col) bound then match_trace bound D rest used_rows used_cols
      else (row, col) # match_trace bound D rest (insert row used_rows) (insert col used_cols))"

text \<open>
  The distance matrix of an update, and the (tracking id, detection index) pairs it
  assigns; none when there are no detections or no active identity of the camera.
\<close>

definition update_matrix :: "CentroidTracker \<Rightarrow> Detection list \<Rightarrow> string \<Rightarrow> int list list" where
  "update_matrix t detections cam =
     cdist (map (\<lambda>(k, obj). centroid obj) (active_objects t cam)) (map center detections)"

definition update_matches :: "CentroidTracker \<Rightarrow> Detection list \<Rightarrow> string \<Rightarrow> (int \<times> nat) list" where
  "update_matches t detections cam =
     (if length detections = 0 \<or> length (active_objects t cam) = 0 then []
      else
        let object_ids = map fst (active_objects t cam);
            D = update_matrix t detections cam;
            rows = argsort (map min_list D);
            cols = map (\<lambda>row. argmin (D ! row)) rows
        in map (\<lambda>(row, col). (object_ids ! row, col))
             (match_trace (max_distance t) D (zip rows cols) {} {}))"

text \<open>The persons registered for the detections with the given indices, ids from \<open>n\<close> on.\<close>

fun registered :: "int \<Rightarrow> Detection list \<Rightarrow> string \<Rightarrow> time \<Rightarrow> nat list \<Rightarrow> (int \<times> TrackedPerson) list" where
  "registered n detections cam now [] = []"
| "registered n detections cam now (col # cols) =
     (n, new_person n (center (detections ! col)) (det_bbox (detections ! col))
           (det_confidence (detections ! col)) cam now) #
     registered (n + 1) detections cam now cols"

text \<open>
  What one update makes of the person stored under \<open>k\<close>: the matched detection's data, or
  one more missed frame for an active person of the camera, or nothing.
\<close>

definition updated_person ::
  "CentroidTracker \<Rightarrow> Detection list \<Rightarrow> string \<Rightarrow> time \<Rightarrow> int \<Rightarrow> TrackedPerson \<Rightarrow> TrackedPerson" where
  "updated_person t detections cam now k v =
     (case map_of (update_matches t detections cam) k of
        Some col \<Rightarrow> matched now (detections ! col) v
      | None \<Rightarrow>
          if is_active v \<and> camera_id v = cam then disappear (max_disappeared t) now v else v)"

definition unmatched_cols :: "CentroidTracker \<Rightarrow> Detection list \<Rightarrow> string \<Rightarrow> nat list" where
  "unmatched_cols t detections cam =
     filter (\<lambda>col. col \<notin> snd ` set (update_matches t detections cam)) [0..<length detections]"

text \<open>A sequence of updates of one tracker: detections, camera and instant of each frame.\<close>

definition updates ::
  "CentroidTracker \<Rightarrow> (Detection list \<times> string \<times> time) list \<Rightarrow> CentroidTracker" where
  "updates t frames = foldl (\<lambda>t' (detections, cam, now). update t' detections cam now) t frames"

text \<open>The tracker of the scenario after six empty frames: identity 1 has departed.\<close>

definition departed_tracker :: CentroidTracker where
  "departed_tracker = feed_empty one_person_tracker ''cam1'' [1, 2, 3, 4, 5, 6]"

text \<open>
  The same tracker after one more frame at time 7, with one detection at (130, 150):
  identity 1 has departed, identity 2 is active five pixels from where identity 1 was
  last seen.
\<close>

definition departed_and_active_tracker :: CentroidTracker where
  "departed_and_active_tracker = update departed_tracker [detection_at (130, 150)] ''cam1'' 7"

subsection \<open>Scenarios with the tracking manager\<close>

definition tm_feed_empty :: "TrackingManager \<Rightarrow> string \<Rightarrow> time list \<Rightarrow> TrackingManager" where
  "tm_feed_empty m cam nows = foldl (\<lambda>m' now. tm_update m' cam [] None now) m nows"

text \<open>One person seen once on camera 1 at time 0.\<close>

definition one_person_manager :: TrackingManager where
  "one_person_manager =
     tm_update (TrackingManager_init False) ''cam1'' [detection_at (125, 150)] None 0"

text \<open>One person seen on camera 1, then another on camera 2.\<close>

definition two_camera_manager :: TrackingManager where
  "two_camera_manager =
     tm_update one_person_manager ''cam2'' [detection_at (325, 250)] None 1"

subsection \<open>The processing loop\<close>

text \<open>
  One pass of the body of \<^verbatim>\<open>process_cameras\<close> for a camera whose frame was fetched and
  not skipped, with the detections the detector returned for it. The database and the
  socket are collaborators whose state is not modelled. An exception raised by one of
  them ends the pass (the loop's \<^verbatim>\<open>try\<close>/\<^verbatim>\<open>except\<close>): \<open>completed = Some n\<close> says that it
  was raised after the alerts of the first \<open>n\<close> departed persons had been added, and
  \<open>None\<close> that the pass ran to its end. The pass calls \<^verbatim>\<open>add_pending_alert\<close> and no other
  method of the alert manager.
\<close>

record System =
  sys_tracking :: TrackingManager
  sys_alerts :: AlertManager

definition process_frame ::
  "System \<Rightarrow> string \<Rightarrow> Detection list \<Rightarrow> frame \<Rightarrow> time \<Rightarrow> nat option \<Rightarrow> System" where
  "process_frame s cam detections fr now completed =
     (let m1 = tm_update (sys_tracking s) cam detections (Some fr) now;
          (active_persons, m2) = tm_get_active_persons m1 (Some cam);
          (newly_left, m3) = get_newly_left_persons m2 cam;
          reached = (case completed of None \<Rightarrow> newly_left | Some n \<Rightarrow> take n newly_left)
      in \<lparr>sys_tracking = m3, sys_alerts = foldl add_pending_alert (sys_alerts s) reached\<rparr>)"

text \<open>
  The steps of the running system: a pass of the processing loop for one camera, or one
  \<^verbatim>\<open>_check_alerts\<close> of the monitor thread. Both hold the alert manager's lock while they
  touch the pending alerts, so they interleave as whole steps.
\<close>

datatype step =
    CameraFrame string "Detection list" frame time "nat option"
  | AlertCheck time

fun system_step :: "System \<Rightarrow> step \<Rightarrow> System" where
  "system_step s (CameraFrame cam detections fr now completed) =
     process_frame s cam detections fr now completed"
| "system_step s (AlertCheck now) = s\<lparr>sys_alerts := check_alerts (sys_alerts s) now\<rparr>"

definition run :: "System \<Rightarrow> step list \<Rightarrow> System" where
  "run s steps = foldl system_step s steps"

text \<open>
  An alert is kept when it is the same alert, except that \<open>triggered\<close> may have been set.
\<close>

definition alert_kept :: "Alert \<Rightarrow> Alert \<Rightarrow> bool" where
  "alert_kept a a' = (a' = a\<lparr>triggered := triggered a'\<rparr> \<and> (triggered a \<longrightarrow> triggered a'))"

text \<open>
  A run in which the person seen on camera 1 at time 0 misses the next 31 frames: the
  processing loop has added a pending alert for tracking id 1.
\<close>

definition departed_system :: System where
  "departed_system =
     run \<lparr>sys_tracking = TrackingManager_init True, sys_alerts = AlertManager_init None\<rparr>
       (CameraFrame ''cam1'' [detection_at (125, 150)] (\<lambda>b. None) 0 None #
        map (\<lambda>n. CameraFrame ''cam1'' [] (\<lambda>b. None) (int n) None) [1..<32])"

subsection \<open>The reference assignment of the specification\<close>

text \<open>
  The specification's words: repeatedly pick the globally smallest remaining distance
  whose row and column are both unused; assign it only if the distance is at most
  \<^verbatim>\<open>maxDistance\<close>; mark row and column used; continue until no eligible pair remains.
  Ties are broken by detection input order (then by identity order). Each round uses up
  one row, so as many rounds as there are rows are enough.
\<close>

definition unused_pairs :: "int list list \<Rightarrow> nat \<Rightarrow> nat set \<Rightarrow> nat set \<Rightarrow> (nat \<times> nat) list" where
  "unused_pairs D n_cols used_rows used_cols =
     concat (map (\<lambda>col. map (\<lambda>row. (row, col))
                           (filter (\<lambda>row. row \<notin> used_rows) [0..<length D]))
               (filter (\<lambda>col. col \<notin> used_cols) [0..<n_cols]))"

fun first_smallest :: "int list list \<Rightarrow> nat \<times> nat \<Rightarrow> (nat \<times> nat) list \<Rightarrow> nat \<times> nat" where
  "first_smallest D best [] = best"
| "first_smallest D best (p # ps) =
     first_smallest D (if D ! fst p ! snd p < D ! fst best ! snd best then p else best) ps"

primrec greedy_rounds ::
  "nat \<Rightarrow> real \<Rightarrow> int list list \<Rightarrow> nat \<Rightarrow> nat set \<Rightarrow> nat set \<Rightarrow> (nat \<times> nat) list" where
  "greedy_rounds 0 bound D n_cols used_rows used_cols = []"
| "greedy_rounds (Suc n) bound D n_cols used_rows used_cols =
     (case unused_pairs D n_cols used_rows used_cols of
        [] \<Rightarrow> []
      | p # ps \<Rightarrow>
          (let (row, col) = first_smallest D p ps
           in if exceeds (D ! row ! col) bound then []
              else (row, col) #
                   greedy_rounds n bound D n_cols (insert row used_rows) (insert col used_cols)))"

definition reference_matches :: "CentroidTracker \<Rightarrow> Detection list \<Rightarrow> string \<Rightarrow> (int \<times> nat) list" where
  "reference_matches t detections cam =
     (let object_ids = map fst (active_objects t cam);
          D = update_matrix t detections cam
      in map (\<lambda>(row, col). (object_ids ! row, col))
           (greedy_rounds (length D) (max_distance t) D (length detections) {} {}))"

text \<open>
  Two persons 30 pixels apart, seen at time 0; in the next frame one detection lies
  between them, nearest to both, and a second one lies 30 pixels beyond the second
  person.
\<close>

definition close_pair_tracker :: CentroidTracker where
  "close_pair_tracker =
     update (CentroidTracker_init 5 50) [detection_at (100, 100), detection_at (130, 100)] ''cam1'' 0"

definition close_pair_frame :: "Detection list" where
  "close_pair_frame = [detection_at (110, 100), detection_at (160, 100)]"

subsection \<open>The update with its library calls left open\<close>

text \<open>
  \<^verbatim>\<open>update\<close> above fixes three things the source takes from its libraries: exact
  distances, a stable \<^verbatim>\<open>argsort\<close>, and ascending iteration over a \<^verbatim>\<open>set\<close>. Here they are
  parameters, constrained only by what the libraries promise.
  \<^item> \<open>metric p q\<close> is the float that \<^verbatim>\<open>dist.cdist\<close> returns for the pair of points; nothing
    is assumed of it.
  \<^item> \<open>np_argsort\<close> is \<^verbatim>\<open>numpy.argsort\<close>: some arrangement of the indices in ascending order
    of their values, the order of equal values left open.
  \<^item> \<open>rows_iter\<close> and \<open>cols_iter\<close> are the orders in which the \<^verbatim>\<open>for\<close> loops of lines 153 and
    164 visit their Python \<^verbatim>\<open>set\<close>: each element once, in some order, which need not be
    the same for the two loops nor from one call to the next.
  The body is that of \<^verbatim>\<open>CentroidTracker.update\<close>, statement by statement; the test of line
  135 is the source's comparison of two floats.
\<close>

definition argsort_spec :: "(real list \<Rightarrow> nat list) \<Rightarrow> bool" where
  "argsort_spec np_argsort =
     (\<forall>xs. distinct (np_argsort xs) \<and> set (np_argsort xs) = {0..<length xs} \<and>
           sorted (map (\<lambda>i. xs ! i) (np_argsort xs)))"

definition set_iter_spec :: "(nat set \<Rightarrow> nat list) \<Rightarrow> bool" where
  "set_iter_spec set_iter = (\<forall>S. finite S \<longrightarrow> distinct (set_iter S) \<and> set (set_iter S) = S)"

definition match_body_with ::
  "real list list \<Rightarrow> int list \<Rightarrow> Detection list \<Rightarrow> time \<Rightarrow>
   CentroidTracker \<times> nat set \<times> nat set \<Rightarrow> nat \<times> nat \<Rightarrow> CentroidTracker \<times> nat set \<times> nat set" where
  "match_body_with D object_ids detections now st rc =
     (case st of (t, used_rows, used_cols) \<Rightarrow> case rc of (row, col) \<Rightarrow>
        if row \<in> used_rows \<or> col \<in> used_cols then st
        else if D ! row ! col > max_distance t then st
        else
          let tid = object_ids ! row;
              det = detections ! col
          in (t\<lparr>objects := dict_modify (objects t) tid
                   (\<lambda>person. person\<lparr>centroid := center det, bbox := det_bbox det,
                                     confidence := det_confidence det,
                                     disappeared_frames := 0, last_seen := now\<rparr>)\<rparr>,
              insert row used_rows, insert col used_cols))"

definition cdist_with :: "(point \<Rightarrow> point \<Rightarrow> real) \<Rightarrow> point list \<Rightarrow> point list \<Rightarrow> real list list" where
  "cdist_with metric A B = map (\<lambda>p. map (metric p) B) A"

definition update_with ::
  "(point \<Rightarrow> point \<Rightarrow> real) \<Rightarrow> (real list \<Rightarrow> nat list) \<Rightarrow>
   (nat set \<Rightarrow> nat list) \<Rightarrow> (nat set \<Rightarrow> nat list) \<Rightarrow>
   CentroidTracker \<Rightarrow> Detection list \<Rightarrow> string \<Rightarrow> time \<Rightarrow> CentroidTracker" where
  "update_with metric np_argsort rows_iter cols_iter t detections cam now =
     (if length detections = 0 then
        foldl (empty_frame_body cam now) t (map fst (objects t))
      else
        let input_centroids = map center detections;
            active = active_objects t cam
        in if length active = 0 then foldl (register_det cam now) t detections
           else
             let object_ids = map fst active;
                 object_centroids = map (\<lambda>(k, obj). centroid obj) active;
                 D = cdist_with metric object_centroids input_centroids;
                 rows = np_argsort (map min_list D);
                 cols = map (\<lambda>row. argmin (D ! row)) rows;
                 (t1, used_rows, used_cols) =
                    foldl (match_body_with D object_ids detections now) (t, {}, {}) (zip rows cols);
                 unused_rows = rows_iter ({0..<length D} - used_rows);
                 t2 = foldl (\<lambda>t' row. mark_disappeared now t' (object_ids ! row)) t1 unused_rows;
                 unused_cols = cols_iter ({0..<length detections} - used_cols)
             in foldl (\<lambda>t' col. register_det cam now t' (detections ! col)) t2 unused_cols)"

text \<open>
  A sequence of calls of \<^verbatim>\<open>update\<close>, each with its own detections, camera and instant, and
  with what the libraries did during that call; \<open>calls_ok\<close> says that they kept their
  promises in every call.
\<close>

type_synonym update_call =
  "(point \<Rightarrow> point \<Rightarrow> real) \<times> (real list \<Rightarrow> nat list) \<times> (nat set \<Rightarrow> nat list) \<times>
   (nat set \<Rightarrow> nat list) \<times> Detection list \<times> string \<times> time"

definition updates_with :: "CentroidTracker \<Rightarrow> update_call list \<Rightarrow> CentroidTracker" where
  "updates_with t calls =
     foldl (\<lambda>t' (metric, np_argsort, rows_iter, cols_iter, detections, cam, now).
              update_with metric np_argsort rows_iter cols_iter t' detections cam now)
       t calls"

definition calls_ok :: "update_call list \<Rightarrow> bool" where
  "calls_ok calls =
     list_all (\<lambda>(metric, np_argsort, rows_iter, cols_iter, detections, cam, now).
                 argsort_spec np_argsort \<and> set_iter_spec rows_iter \<and> set_iter_spec cols_iter)
       calls"

text \<open>
  The distance matrix of such an update, the order in which it takes the rows, and the
  set of (row, column) pairs of the nearest-first assignment, in words: row \<open>r\<close> with
  its nearest column, when the distance is within \<^verbatim>\<open>max_distance\<close> and no row taken before
  \<open>r\<close> has the same nearest column.
\<close>

definition matrix_with ::
  "(point \<Rightarrow> point \<Rightarrow> real) \<Rightarrow> CentroidTracker \<Rightarrow> Detection list \<Rightarrow> string \<Rightarrow> real list list" where
  "matrix_with metric t detections cam =
     cdist_with metric (map (\<lambda>(k, obj). centroid obj) (active_objects t cam)) (map center detections)"

definition nearest_first :: "real \<Rightarrow> real list list \<Rightarrow> nat list \<Rightarrow> (nat \<times> nat) set" where
  "nearest_first bound D rows =
     (\<lambda>r. (r, argmin (D ! r))) `
       {r \<in> set rows. min_list (D ! r) \<le> bound \<and>
          (\<forall>r' \<in> set (takeWhile (\<lambda>x. x \<noteq> r) rows). argmin (D ! r') \<noteq> argmin (D ! r))}"

text \<open>
  The same loop as \<open>match_body_with\<close>, keeping the pairs it assigns; lemma
  \<open>match_loop_trace_with\<close> ties the two together.
\<close>

fun match_trace_with :: "real \<Rightarrow> real list list \<Rightarrow> (nat \<times> nat) list \<Rightarrow> nat set \<Rightarrow> nat set \<Rightarrow> (nat \<times> nat) list" where
  "match_trace_with bound D [] used_rows used_cols = []"
| "match_trace_with bound D ((row, col) # rest) used_rows used_cols =
     (if row \<in> used_rows \<or> col \<in> used_cols then match_trace_with bound D rest used_rows used_cols
      else if D ! row ! col > bound then match_trace_with bound D rest used_rows used_cols
      else (row, col) #
           match_trace_with bound D rest (insert row used_rows) (insert col used_cols))"

definition matches_with ::
  "(point \<Rightarrow> point \<Rightarrow> real) \<Rightarrow> (real list \<Rightarrow> nat list) \<Rightarrow> CentroidTracker \<Rightarrow> Detection list \<Rightarrow>
   string \<Rightarrow> (int \<times> nat) list" where
  "matches_with metric np_argsort t detections cam =
     (if length detections = 0 \<or> length (active_objects t cam) = 0 then []
      else
        let object_ids = map fst (active_objects t cam);
            D = matrix_with metric t detections cam;
            rows = np_argsort (map min_list D);
            cols = map (\<lambda>row. argmin (D ! row)) rows
        in map (\<lambda>(row, col). (object_ids ! row, col))
             (match_trace_with (max_distance t) D (zip rows cols) {} {}))"

text \<open>
  What an update makes of the person stored under \<open>k\<close>, given the pairs \<open>M\<close> it assigns, and
  the detections it registers, in the order it registers them: all of them in input
  order when no identity of the camera is active (line 111), the unused columns in the
  order of the set iteration otherwise (line 164).
\<close>

definition person_after ::
  "(int \<times> nat) list \<Rightarrow> int \<Rightarrow> Detection list \<Rightarrow> string \<Rightarrow> time \<Rightarrow> int \<Rightarrow> TrackedPerson \<Rightarrow> TrackedPerson" where
  "person_after M md detections cam now k v =
     (case map_of M k of
        Some col \<Rightarrow> matched now (detections ! col) v
      | None \<Rightarrow> if is_active v \<and> camera_id v = cam then disappear md now v else v)"

definition new_cols_with ::
  "(nat set \<Rightarrow> nat list) \<Rightarrow> CentroidTracker \<Rightarrow> Detection list \<Rightarrow> string \<Rightarrow> (int \<times> nat) list \<Rightarrow> nat list" where
  "new_cols_with cols_iter t detections cam M =
     (if active_objects t cam = [] then [0..<length detections]
      else cols_iter ({0..<length detections} - snd ` set M))"

section \<open>Properties\<close>

subsection \<open>Dictionaries\<close>

lemma map_of_dict_set: "map_of (dict_set d k v) = (map_of d)(k \<mapsto> v)"
  by (induction d) (auto simp: fun_eq_iff)

lemma keys_dict_set:
  "map fst (dict_set d k v) = (if k \<in> set (map fst d) then map fst d else map fst d @ [k])"
  by (induction d) (auto split: if_splits)

lemma dict_set_fresh: "k \<notin> set (map fst d) \<Longrightarrow> dict_set d k v = d @ [(k, v)]"
  by (induction d) auto

lemma map_upd_id: "k \<notin> set (map fst d) \<Longrightarrow> map (\<lambda>(k', v'). (k', if k' = k then g v' else v')) d = d"
  by (induction d) auto

lemma dict_modify_map:
  "distinct (map fst d) \<Longrightarrow>
   dict_modify d k f = map (\<lambda>(k', v'). (k', if k' = k then f v' else v')) d"
proof (induction d)
  case Nil
  then show ?case by (simp add: dict_modify_def)
next
  case (Cons x d)
  obtain k0 v0 where x: "x = (k0, v0)" by (cases x)
  show ?case
  proof (cases "k0 = k")
    case True
    then have "k \<notin> set (map fst d)" using Cons.prems x by auto
    then have "map (\<lambda>(k', v'). (k', if k' = k then f v' else v')) d = d"
      by (rule map_upd_id)
    then show ?thesis using True x by (simp add: dict_modify_def)
  next
    case False
    have "dict_modify d k f = map (\<lambda>(k', v'). (k', if k' = k then f v' else v')) d"
      using Cons by simp
    then show ?thesis using False x
      by (auto simp: dict_modify_def split: option.splits)
  qed
qed

lemma keys_dict_modify: "map fst (dict_modify d k f) = map fst d"
proof (cases "map_of d k")
  case None
  then show ?thesis by (simp add: dict_modify_def)
next
  case (Some v)
  then have "k \<in> set (map fst d)" by (metis map_of_eq_None_iff option.distinct(1) set_map)
  then show ?thesis using Some by (simp add: dict_modify_def keys_dict_set)
qed

lemma map_of_dict_modify:
  "map_of (dict_modify d k f) k' = (if k' = k then map_option f (map_of d k) else map_of d k')"
  by (auto simp: dict_modify_def map_of_dict_set split: option.splits)

lemma dict_del_append_fresh: "k \<notin> set (map fst d) \<Longrightarrow> dict_del (d @ [(k, v)]) k = d"
  by (induction d) auto

lemma map_of_dict_del: "distinct (map fst d) \<Longrightarrow> map_of (dict_del d k) = (map_of d)(k := None)"
proof (induction d)
  case Nil
  then show ?case by simp
next
  case (Cons x d)
  obtain k0 v0 where x: "x = (k0, v0)" by (cases x)
  show ?case
  proof (cases "k0 = k")
    case True
    then have "map_of d k = None" using Cons.prems x by (simp add: map_of_eq_None_iff)
    then show ?thesis using True x by (auto simp: fun_eq_iff)
  next
    case False
    then show ?thesis using Cons x by (auto simp: fun_eq_iff)
  qed
qed

lemma set_dict_del_subset: "x \<in> set (dict_del d k) \<Longrightarrow> x \<in> set d"
  by (induction d) (auto split: if_splits)

lemma distinct_dict_del: "distinct (map fst d) \<Longrightarrow> distinct (map fst (dict_del d k))"
proof (induction d)
  case Nil
  then show ?case by simp
next
  case (Cons x d)
  have "fst x \<notin> fst ` set (dict_del d k)"
    using Cons.prems set_dict_del_subset [of _ d k] by (auto simp: image_iff)
  then show ?case using Cons by (cases x) auto
qed

subsection \<open>The alert evaluator\<close>

lemma trigger_alert_known:
  assumes "distinct (map fst (pending_alerts am))" "map_of (pending_alerts am) k = Some a"
  shows "trigger_alert am k =
    am\<lparr>pending_alerts := map (\<lambda>(k', v'). (k', if k' = k then v'\<lparr>triggered := True\<rparr> else v')) (pending_alerts am),
       effects := effects am @ trigger_effects (alert_callbacks am) a\<rparr>"
proof -
  have "dict_set (pending_alerts am) k (a\<lparr>triggered := True\<rparr>) =
        dict_modify (pending_alerts am) k (\<lambda>v. v\<lparr>triggered := True\<rparr>)"
    using assms(2) by (simp add: dict_modify_def)
  then show ?thesis using assms by (simp add: trigger_alert_def dict_modify_map)
qed

lemma map_of_map_upd:
  "map_of (map (\<lambda>(k', v'). (k', if k' = k then g v' else v')) d) k' =
   (if k' = k then map_option g (map_of d k) else map_of d k')"
  by (induction d) auto

lemma fold_trigger_alert:
  assumes "distinct (map fst (pending_alerts am))" "distinct ks" "set ks \<subseteq> set (map fst (pending_alerts am))"
  shows "foldl trigger_alert am ks =
    am\<lparr>pending_alerts := map (\<lambda>(k, v). (k, if k \<in> set ks then v\<lparr>triggered := True\<rparr> else v)) (pending_alerts am),
       effects := effects am @
         concat (map (\<lambda>k. case map_of (pending_alerts am) k of None \<Rightarrow> []
                       | Some a \<Rightarrow> trigger_effects (alert_callbacks am) a) ks)\<rparr>"
  using assms
proof (induction ks arbitrary: am)
  case Nil
  then show ?case by simp
next
  case (Cons k ks)
  from Cons.prems obtain a where a: "map_of (pending_alerts am) k = Some a"
    by (cases "map_of (pending_alerts am) k") (auto simp: map_of_eq_None_iff)
  let ?am1 = "trigger_alert am k"
  have am1: "?am1 = am\<lparr>pending_alerts := map (\<lambda>(k', v'). (k', if k' = k then v'\<lparr>triggered := True\<rparr> else v')) (pending_alerts am),
       effects := effects am @ trigger_effects (alert_callbacks am) a\<rparr>"
    using Cons.prems a by (intro trigger_alert_known) auto
  have keys1: "map fst (pending_alerts ?am1) = map fst (pending_alerts am)"
    by (simp add: am1 comp_def case_prod_unfold)
  have IH: "foldl trigger_alert ?am1 ks =
    ?am1\<lparr>pending_alerts := map (\<lambda>(k, v). (k, if k \<in> set ks then v\<lparr>triggered := True\<rparr> else v)) (pending_alerts ?am1),
       effects := effects ?am1 @
         concat (map (\<lambda>k. case map_of (pending_alerts ?am1) k of None \<Rightarrow> []
                       | Some a \<Rightarrow> trigger_effects (alert_callbacks ?am1) a) ks)\<rparr>"
    using Cons.prems by (intro Cons.IH) (auto simp: keys1)
  have eff: "map (\<lambda>k. case map_of (pending_alerts ?am1) k of None \<Rightarrow> []
                       | Some a \<Rightarrow> trigger_effects (alert_callbacks ?am1) a) ks =
             map (\<lambda>k. case map_of (pending_alerts am) k of None \<Rightarrow> []
                       | Some a \<Rightarrow> trigger_effects (alert_callbacks am) a) ks"
  proof (rule map_cong [OF refl])
    fix k' assume "k' \<in> set ks"
    then have "k' \<noteq> k" using Cons.prems by auto
    then have pm: "map_of (pending_alerts ?am1) k' = map_of (pending_alerts am) k'"
      by (simp add: am1 map_of_map_upd)
    have cb: "alert_callbacks ?am1 = alert_callbacks am" by (simp add: am1)
    show "(case map_of (pending_alerts ?am1) k' of None \<Rightarrow> []
                       | Some a \<Rightarrow> trigger_effects (alert_callbacks ?am1) a) =
          (case map_of (pending_alerts am) k' of None \<Rightarrow> []
                       | Some a \<Rightarrow> trigger_effects (alert_callbacks am) a)"
      unfolding pm cb ..
  qed
  have pend: "map (\<lambda>(k, v). (k, if k \<in> set ks then v\<lparr>triggered := True\<rparr> else v)) (pending_alerts ?am1) =
     map (\<lambda>(k', v). (k', if k' \<in> set (k # ks) then v\<lparr>triggered := True\<rparr> else v)) (pending_alerts am)"
    by (auto simp: am1)
  show ?case
    unfolding foldl_Cons IH eff pend using a by (simp add: am1)
qed

lemma map_of_distinct_in: "distinct (map fst d) \<Longrightarrow> (k, v) \<in> set d \<Longrightarrow> map_of d k = Some v"
  by simp

lemma check_alerts_char:
  assumes "distinct (map fst (pending_alerts am))"
  shows "check_alerts am now =
    am\<lparr>pending_alerts := map (\<lambda>(k, v). (k, if should_trigger v now then v\<lparr>triggered := True\<rparr> else v)) (pending_alerts am),
       effects := effects am @
         concat (map (\<lambda>(k, a). trigger_effects (alert_callbacks am) a)
                   (filter (\<lambda>(k, a). should_trigger a now) (pending_alerts am)))\<rparr>"
proof -
  let ?P = "\<lambda>(k, a). should_trigger a now"
  let ?ks = "map fst (filter ?P (pending_alerts am))"
  have d: "distinct ?ks" using assms by (simp add: distinct_map_filter)
  have sub: "set ?ks \<subseteq> set (map fst (pending_alerts am))" by auto
  have mem: "(k \<in> set ?ks) = should_trigger v now" if "(k, v) \<in> set (pending_alerts am)" for k v
  proof
    assume "k \<in> set ?ks"
    then obtain v' where "(k, v') \<in> set (pending_alerts am)" "should_trigger v' now" by auto
    moreover have "v' = v" using assms that calculation(1) by (metis map_of_distinct_in option.inject)
    ultimately show "should_trigger v now" by simp
  next
    assume "should_trigger v now"
    then show "k \<in> set ?ks" using that by force
  qed
  have pend: "map (\<lambda>(k, v). (k, if k \<in> set ?ks then v\<lparr>triggered := True\<rparr> else v)) (pending_alerts am) =
        map (\<lambda>(k, v). (k, if should_trigger v now then v\<lparr>triggered := True\<rparr> else v)) (pending_alerts am)"
  proof (rule map_cong [OF refl])
    fix x assume x: "x \<in> set (pending_alerts am)"
    obtain k v where kv: "x = (k, v)" by (cases x)
    have "(k \<in> set ?ks) = should_trigger v now" using mem x kv by blast
    then show "(case x of (k, v) \<Rightarrow> (k, if k \<in> set ?ks then v\<lparr>triggered := True\<rparr> else v)) =
               (case x of (k, v) \<Rightarrow> (k, if should_trigger v now then v\<lparr>triggered := True\<rparr> else v))"
      unfolding kv prod.case by (simp only:)
  qed
  have eff: "map (\<lambda>k. case map_of (pending_alerts am) k of None \<Rightarrow> []
                       | Some a \<Rightarrow> trigger_effects (alert_callbacks am) a) ?ks =
             map (\<lambda>(k, a). trigger_effects (alert_callbacks am) a) (filter ?P (pending_alerts am))"
    unfolding map_map
    by (rule map_cong [OF refl]) (auto simp: map_of_distinct_in [OF assms])
  show ?thesis
    unfolding check_alerts_def Let_def fold_trigger_alert [OF assms d sub] pend eff ..
qed

lemma effects_of_trigger_effects:
  "effects_of tid (trigger_effects cbs a) =
     (if alert_tracking_id a = tid
      then [CreateAlert tid (alert_employee_id a) (left_at a) (timeout_minutes a),
            ShowNotification tid] @ map (\<lambda>cb. Callback cb tid) cbs
      else [])"
  by (induction cbs) (auto simp: effects_of_def trigger_effects_def effect_alert_def)

lemma effects_of_append: "effects_of tid (xs @ ys) = effects_of tid xs @ effects_of tid ys"
  by (simp add: effects_of_def)

lemma effects_of_fired:
  assumes "distinct (map fst d)" "list_all (\<lambda>(k, a). alert_tracking_id a = k) d"
  shows "effects_of tid (concat (map (\<lambda>(k, a). trigger_effects cbs a) (filter (\<lambda>(k, a). P a) d))) =
         (case map_of d tid of
            None \<Rightarrow> []
          | Some a \<Rightarrow> if P a then effects_of tid (trigger_effects cbs a) else [])"
  using assms
proof (induction d)
  case Nil
  then show ?case by (simp add: effects_of_def)
next
  case (Cons x d)
  obtain k a where x: "x = (k, a)" by (cases x)
  have ka: "alert_tracking_id a = k" using Cons.prems x by simp
  have IH: "effects_of tid (concat (map (\<lambda>(k, a). trigger_effects cbs a) (filter (\<lambda>(k, a). P a) d))) =
         (case map_of d tid of
            None \<Rightarrow> []
          | Some a \<Rightarrow> if P a then effects_of tid (trigger_effects cbs a) else [])"
    using Cons by simp
  show ?case
  proof (cases "k = tid")
    case True
    then have "map_of d tid = None" using Cons.prems x by (simp add: map_of_eq_None_iff)
    then show ?thesis using True x IH by (simp add: effects_of_append)
  next
    case False
    then have "effects_of tid (trigger_effects cbs a) = []"
      using ka by (simp add: effects_of_trigger_effects)
    then show ?thesis using False x IH by (simp add: effects_of_append)
  qed
qed

lemma check_alerts_wf: "alerts_wf am \<Longrightarrow> alerts_wf (check_alerts am now)"
  by (auto simp: alerts_wf_def check_alerts_char comp_def case_prod_unfold list_all_iff)

lemma check_alerts_callbacks:
  "distinct (map fst (pending_alerts am)) \<Longrightarrow> alert_callbacks (check_alerts am now) = alert_callbacks am"
  by (simp add: check_alerts_char)

lemma check_alerts_keys:
  "distinct (map fst (pending_alerts am)) \<Longrightarrow>
   map fst (pending_alerts (check_alerts am now)) = map fst (pending_alerts am)"
  by (simp add: check_alerts_char comp_def case_prod_unfold)

lemma map_of_map_val:
  "map_of (map (\<lambda>(k, v). (k, g v)) d) k = map_option g (map_of d k)"
  by (induction d) auto

lemma check_alerts_lookup:
  "distinct (map fst (pending_alerts am)) \<Longrightarrow>
   map_of (pending_alerts (check_alerts am now)) k =
   map_option (\<lambda>v. if should_trigger v now then v\<lparr>triggered := True\<rparr> else v)
     (map_of (pending_alerts am) k)"
  by (simp add: check_alerts_char map_of_map_val)

lemma check_alerts_effects_of:
  assumes "alerts_wf am"
  shows "effects_of tid (effects (check_alerts am now)) =
     effects_of tid (effects am) @
     (case map_of (pending_alerts am) tid of
        None \<Rightarrow> []
      | Some a \<Rightarrow> if should_trigger a now
                  then effects_of tid (trigger_effects (alert_callbacks am) a) else [])"
proof -
  have d: "distinct (map fst (pending_alerts am))"
    and w: "list_all (\<lambda>(k, a). alert_tracking_id a = k) (pending_alerts am)"
    using assms by (simp_all add: alerts_wf_def)
  show ?thesis
    by (simp add: check_alerts_char [OF d] effects_of_append
        effects_of_fired [OF d w, where P = "\<lambda>a. should_trigger a now"])
qed

lemma checks_after_trigger:
  assumes "alerts_wf am" "map_of (pending_alerts am) tid = Some a" "triggered a"
  shows "map_of (pending_alerts (foldl check_alerts am nows)) tid = Some a \<and>
         effects_of tid (effects (foldl check_alerts am nows)) = effects_of tid (effects am) \<and>
         map fst (pending_alerts (foldl check_alerts am nows)) = map fst (pending_alerts am)"
  using assms
proof (induction nows arbitrary: am)
  case Nil
  then show ?case by simp
next
  case (Cons now nows)
  have d: "distinct (map fst (pending_alerts am))" using Cons.prems by (simp add: alerts_wf_def)
  have nt: "\<not> should_trigger a now" using Cons.prems by (simp add: should_trigger_def)
  have 1: "alerts_wf (check_alerts am now)" using Cons.prems by (simp add: check_alerts_wf)
  have 2: "map_of (pending_alerts (check_alerts am now)) tid = Some a"
    using Cons.prems nt by (simp add: check_alerts_lookup [OF d])
  have 3: "effects_of tid (effects (check_alerts am now)) = effects_of tid (effects am)"
    using Cons.prems nt by (simp add: check_alerts_effects_of)
  show ?case
    using Cons.IH [OF 1 2 Cons.prems(3)] 3 check_alerts_keys [OF d] by simp
qed

text \<open>
  Claim C5. A pending alert whose fire time has passed is triggered by the first evaluator
  check that runs at or after that time, and by no later check, however many follow and
  whatever their times: the alert stays in the pending set with \<open>triggered\<close> set, and the
  calls made for it are exactly one database record, one notification and one call of
  each registered callback.
\<close>

theorem check_alerts_triggers_once:
  assumes "alerts_wf am" and "map_of (pending_alerts am) tid = Some a"
    and "\<not> triggered a" and "alert_time a \<le> now"
  shows "map_of (pending_alerts (foldl check_alerts (check_alerts am now) nows)) tid =
           Some (a\<lparr>triggered := True\<rparr>) \<and>
         effects_of tid (effects (foldl check_alerts (check_alerts am now) nows)) =
           effects_of tid (effects am) @
           [CreateAlert tid (alert_employee_id a) (left_at a) (timeout_minutes a),
            ShowNotification tid] @ map (\<lambda>cb. Callback cb tid) (alert_callbacks am) \<and>
         map fst (pending_alerts (foldl check_alerts (check_alerts am now) nows)) =
           map fst (pending_alerts am)"
proof -
  have d: "distinct (map fst (pending_alerts am))"
    and w: "list_all (\<lambda>(k, a). alert_tracking_id a = k) (pending_alerts am)"
    using assms(1) by (simp_all add: alerts_wf_def)
  have st: "should_trigger a now" using assms by (simp add: should_trigger_def)
  have ka: "alert_tracking_id a = tid"
    using w map_of_SomeD [OF assms(2)] by (auto simp: list_all_iff)
  let ?am1 = "check_alerts am now"
  have 1: "alerts_wf ?am1" using assms(1) by (rule check_alerts_wf)
  have 2: "map_of (pending_alerts ?am1) tid = Some (a\<lparr>triggered := True\<rparr>)"
    using assms(2) st by (simp add: check_alerts_lookup [OF d])
  have 3: "effects_of tid (effects ?am1) = effects_of tid (effects am) @
           [CreateAlert tid (alert_employee_id a) (left_at a) (timeout_minutes a),
            ShowNotification tid] @ map (\<lambda>cb. Callback cb tid) (alert_callbacks am)"
    using assms(2) st ka by (simp add: check_alerts_effects_of [OF assms(1)] effects_of_trigger_effects)
  have 4: "triggered (a\<lparr>triggered := True\<rparr>)" by simp
  show ?thesis
    using checks_after_trigger [OF 1 2 4, of nows] 3 check_alerts_keys [OF d, of now] by simp
qed

theorem check_alerts_triggers_once_witness:
  "alerts_wf scenario_alerts \<and>
   map_of (pending_alerts scenario_alerts) 7 = Some (Alert_init 7 ''Unknown'' 0 20) \<and>
   \<not> triggered (Alert_init 7 ''Unknown'' 0 20) \<and>
   alert_time (Alert_init 7 ''Unknown'' 0 20) \<le> 1260000000 \<and>
   map_of (pending_alerts (foldl check_alerts (check_alerts scenario_alerts 1260000000)
       [1290000000, 1320000000])) 7 = Some ((Alert_init 7 ''Unknown'' 0 20)\<lparr>triggered := True\<rparr>) \<and>
   effects_of 7 (effects (foldl check_alerts (check_alerts scenario_alerts 1260000000)
       [1290000000, 1320000000])) =
     [CreateAlert 7 ''Unknown'' 0 20, ShowNotification 7, Callback 0 7]"
proof -
  have wf: "alerts_wf scenario_alerts" by code_simp
  have lk: "map_of (pending_alerts scenario_alerts) 7 = Some (Alert_init 7 ''Unknown'' 0 20)"
    by code_simp
  have nt: "\<not> triggered (Alert_init 7 ''Unknown'' 0 20)" by code_simp
  have tm: "alert_time (Alert_init 7 ''Unknown'' 0 20) \<le> 1260000000" by code_simp
  have e0: "effects_of 7 (effects scenario_alerts) = []" by code_simp
  have cb: "alert_callbacks scenario_alerts = [0]" by code_simp
  have f: "alert_employee_id (Alert_init 7 ''Unknown'' 0 20) = ''Unknown''"
     "left_at (Alert_init 7 ''Unknown'' 0 20) = 0" "timeout_minutes (Alert_init 7 ''Unknown'' 0 20) = 20"
    by (simp_all add: Alert_init_def)
  show ?thesis
    using check_alerts_triggers_once [OF wf lk nt tm, of "[1290000000, 1320000000]"] wf lk nt tm
    by (simp add: e0 cb f)
qed

subsection \<open>Acknowledgement\<close>

text \<open>
  Claim C4, as the code has it. \<^verbatim>\<open>acknowledge_alert\<close> sets \<open>acknowledged\<close> on the alert
  stored under the tracking id whenever there is one, triggered or not, and changes
  nothing else; for an unknown tracking id the manager is unchanged.
\<close>

theorem acknowledge_alert_effect:
  "(map_of (pending_alerts am) tid = None \<longrightarrow> acknowledge_alert am tid = am) \<and>
   (\<forall>a. map_of (pending_alerts am) tid = Some a \<longrightarrow>
        map_of (pending_alerts (acknowledge_alert am tid)) tid = Some (a\<lparr>acknowledged := True\<rparr>)) \<and>
   (\<forall>k. k \<noteq> tid \<longrightarrow>
        map_of (pending_alerts (acknowledge_alert am tid)) k = map_of (pending_alerts am) k) \<and>
   map fst (pending_alerts (acknowledge_alert am tid)) = map fst (pending_alerts am) \<and>
   effects (acknowledge_alert am tid) = effects am \<and>
   alert_callbacks (acknowledge_alert am tid) = alert_callbacks am"
  by (simp add: acknowledge_alert_def map_of_dict_modify keys_dict_modify)
     (simp add: dict_modify_def)

theorem acknowledge_alert_effect_witness:
  "map_of (pending_alerts scenario_alerts) 8 = None \<and>
   acknowledge_alert scenario_alerts 8 = scenario_alerts \<and>
   map_of (pending_alerts scenario_alerts) 7 = Some (Alert_init 7 ''Unknown'' 0 20) \<and>
   \<not> triggered (Alert_init 7 ''Unknown'' 0 20) \<and>
   map_of (pending_alerts (acknowledge_alert scenario_alerts 7)) 7 =
     Some ((Alert_init 7 ''Unknown'' 0 20)\<lparr>acknowledged := True\<rparr>) \<and>
   map_of (pending_alerts (acknowledge_alert scenario_alerts 8)) 7 =
     map_of (pending_alerts scenario_alerts) 7"
proof -
  have n8: "map_of (pending_alerts scenario_alerts) 8 = None" by code_simp
  have s7: "map_of (pending_alerts scenario_alerts) 7 = Some (Alert_init 7 ''Unknown'' 0 20)"
    by code_simp
  have nt: "\<not> triggered (Alert_init 7 ''Unknown'' 0 20)" by code_simp
  show ?thesis
    using acknowledge_alert_effect [of scenario_alerts 8]
      acknowledge_alert_effect [of scenario_alerts 7] n8 s7 nt
    by simp
qed

text \<open>
  The claim as stated fails: acknowledging the alert of tracking id 7 before any evaluator
  check has triggered it sets \<open>acknowledged\<close> (as \<^verbatim>\<open>test_acknowledge_alert\<close> expects).
\<close>

theorem acknowledge_untriggered_counterexample:
  "map (\<lambda>(k, a). (k, triggered a, acknowledged a)) (pending_alerts scenario_alerts) =
     [(7, False, False)] \<and>
   map (\<lambda>(k, a). (k, triggered a, acknowledged a))
     (pending_alerts (acknowledge_alert scenario_alerts 7)) = [(7, False, True)] \<and>
   acknowledge_alert scenario_alerts 7 \<noteq> scenario_alerts"
proof -
  have a: "map (\<lambda>(k, a). (k, triggered a, acknowledged a)) (pending_alerts scenario_alerts) =
     [(7, False, False)]" by code_simp
  have b: "map (\<lambda>(k, a). (k, triggered a, acknowledged a))
     (pending_alerts (acknowledge_alert scenario_alerts 7)) = [(7, False, True)]" by code_simp
  from a b have "acknowledge_alert scenario_alerts 7 \<noteq> scenario_alerts" by auto
  with a b show ?thesis by simp
qed

subsection \<open>Cancellation\<close>

lemma cancel_alert_untriggered:
  assumes "distinct (map fst (pending_alerts am))"
    and "map_of (pending_alerts am) tid = Some a" and "\<not> triggered a"
  shows "pending_alerts (cancel_alert am tid) = dict_del (pending_alerts am) tid"
    and "map_of (pending_alerts (cancel_alert am tid)) k =
         (if k = tid then None else map_of (pending_alerts am) k)"
  using assms by (simp_all add: cancel_alert_def map_of_dict_del)

lemma cancel_alert_noop:
  "map_of (pending_alerts am) tid = None \<Longrightarrow> cancel_alert am tid = am"
  "map_of (pending_alerts am) tid = Some a \<Longrightarrow> triggered a \<Longrightarrow> cancel_alert am tid = am"
  by (simp_all add: cancel_alert_def)

lemma add_then_cancel_fresh:
  assumes "map_of (pending_alerts am) (tracking_id p) = None"
  shows "cancel_alert (add_pending_alert am p) (tracking_id p) = am"
proof -
  have fresh: "tracking_id p \<notin> set (map fst (pending_alerts am))"
    using assms by (simp add: map_of_eq_None_iff)
  obtain al where al: "add_pending_alert am p =
      am\<lparr>pending_alerts := dict_set (pending_alerts am) (tracking_id p) al\<rparr>" and "\<not> triggered al"
    using assms by (simp add: add_pending_alert_def Let_def Alert_init_def)
  have lk: "map_of (pending_alerts (add_pending_alert am p)) (tracking_id p) = Some al"
    by (simp add: al map_of_dict_set)
  have "dict_del (dict_set (pending_alerts am) (tracking_id p) al) (tracking_id p) = pending_alerts am"
    by (simp add: dict_set_fresh [OF fresh] dict_del_append_fresh [OF fresh])
  then show ?thesis
    using lk \<open>\<not> triggered al\<close> by (simp add: cancel_alert_def al)
qed

lemma add_pending_alert_known:
  "map_of (pending_alerts am) (tracking_id p) = Some a \<Longrightarrow> add_pending_alert am p = am"
  by (simp add: add_pending_alert_def)

lemma triggered_dict_del:
  "list_all (\<lambda>(k, a). \<not> triggered a) d \<Longrightarrow> list_all (\<lambda>(k, a). \<not> triggered a) (dict_del d k)"
  by (induction d) auto

lemma get_triggered_none:
  "list_all (\<lambda>(k, a). \<not> triggered a) (pending_alerts am) \<Longrightarrow> get_triggered_alerts am = []"
  by (auto simp: get_triggered_alerts_def list_all_iff filter_empty_conv)

text \<open>
  Claim C8. \<^verbatim>\<open>cancel_alert\<close> removes the pending alert of a tracking id when there is one
  that has not been triggered, and leaves the manager unchanged when the alert has been
  triggered or the id is unknown. Hence, while no alert has been triggered (no evaluator
  cycle has fired one), \<^verbatim>\<open>add_pending_alert\<close> followed by \<^verbatim>\<open>cancel_alert\<close> for the same
  tracking id leaves no alert for that id and no triggered alert, and the other alerts as
  they were; on a manager with no alerts it leaves none.
\<close>

theorem cancel_alert_effect:
  assumes "distinct (map fst (pending_alerts am))"
  shows
   "(\<forall>a. map_of (pending_alerts am) tid = Some a \<and> \<not> triggered a \<longrightarrow>
        pending_alerts (cancel_alert am tid) = dict_del (pending_alerts am) tid \<and>
        map_of (pending_alerts (cancel_alert am tid)) tid = None \<and>
        (\<forall>k. k \<noteq> tid \<longrightarrow>
           map_of (pending_alerts (cancel_alert am tid)) k = map_of (pending_alerts am) k)) \<and>
    (\<forall>a. map_of (pending_alerts am) tid = Some a \<and> triggered a \<longrightarrow> cancel_alert am tid = am) \<and>
    (map_of (pending_alerts am) tid = None \<longrightarrow> cancel_alert am tid = am) \<and>
    (list_all (\<lambda>(k, a). \<not> triggered a) (pending_alerts am) \<longrightarrow>
       map_of (pending_alerts (cancel_alert (add_pending_alert am p) (tracking_id p)))
         (tracking_id p) = None \<and>
       get_triggered_alerts (cancel_alert (add_pending_alert am p) (tracking_id p)) = [] \<and>
       (\<forall>k. k \<noteq> tracking_id p \<longrightarrow>
          map_of (pending_alerts (cancel_alert (add_pending_alert am p) (tracking_id p))) k =
          map_of (pending_alerts am) k)) \<and>
    (pending_alerts am = [] \<longrightarrow>
       get_pending_alerts (cancel_alert (add_pending_alert am p) (tracking_id p)) = [] \<and>
       get_triggered_alerts (cancel_alert (add_pending_alert am p) (tracking_id p)) = [])"
proof -
  have 1: "\<forall>a. map_of (pending_alerts am) tid = Some a \<and> \<not> triggered a \<longrightarrow>
        pending_alerts (cancel_alert am tid) = dict_del (pending_alerts am) tid \<and>
        map_of (pending_alerts (cancel_alert am tid)) tid = None \<and>
        (\<forall>k. k \<noteq> tid \<longrightarrow>
           map_of (pending_alerts (cancel_alert am tid)) k = map_of (pending_alerts am) k)"
    using cancel_alert_untriggered [OF assms] by simp
  have 2: "\<forall>a. map_of (pending_alerts am) tid = Some a \<and> triggered a \<longrightarrow> cancel_alert am tid = am"
    using cancel_alert_noop(2) by blast
  have 3: "map_of (pending_alerts am) tid = None \<longrightarrow> cancel_alert am tid = am"
    using cancel_alert_noop(1) by blast
  have 4: "map_of (pending_alerts (cancel_alert (add_pending_alert am p) (tracking_id p)))
         (tracking_id p) = None \<and>
       get_triggered_alerts (cancel_alert (add_pending_alert am p) (tracking_id p)) = [] \<and>
       (\<forall>k. k \<noteq> tracking_id p \<longrightarrow>
          map_of (pending_alerts (cancel_alert (add_pending_alert am p) (tracking_id p))) k =
          map_of (pending_alerts am) k)"
    if nt: "list_all (\<lambda>(k, a). \<not> triggered a) (pending_alerts am)"
  proof (cases "map_of (pending_alerts am) (tracking_id p)")
    case None
    then show ?thesis using add_then_cancel_fresh [OF None] get_triggered_none [OF nt] by simp
  next
    case (Some a)
    have "\<not> triggered a" using nt map_of_SomeD [OF Some] by (auto simp: list_all_iff)
    then have c: "pending_alerts (cancel_alert am (tracking_id p)) =
        dict_del (pending_alerts am) (tracking_id p)"
      and m: "\<And>k. map_of (pending_alerts (cancel_alert am (tracking_id p))) k =
         (if k = tracking_id p then None else map_of (pending_alerts am) k)"
      using cancel_alert_untriggered [OF assms Some] by simp_all
    have "list_all (\<lambda>(k, a). \<not> triggered a) (pending_alerts (cancel_alert am (tracking_id p)))"
      unfolding c using nt by (rule triggered_dict_del)
    then have "get_triggered_alerts (cancel_alert am (tracking_id p)) = []"
      by (rule get_triggered_none)
    then show ?thesis using m by (simp add: add_pending_alert_known [OF Some])
  qed
  have 5: "get_pending_alerts (cancel_alert (add_pending_alert am p) (tracking_id p)) = [] \<and>
       get_triggered_alerts (cancel_alert (add_pending_alert am p) (tracking_id p)) = []"
    if e: "pending_alerts am = []"
  proof -
    have "map_of (pending_alerts am) (tracking_id p) = None" using e by simp
    then have "cancel_alert (add_pending_alert am p) (tracking_id p) = am"
      by (rule add_then_cancel_fresh)
    then show ?thesis using e by (simp add: get_pending_alerts_def get_triggered_alerts_def)
  qed
  show ?thesis using 1 2 3 4 5 by blast
qed

theorem cancel_alert_effect_witness:
  "distinct (map fst (pending_alerts scenario_alerts)) \<and>
   map_of (pending_alerts scenario_alerts) 7 = Some (Alert_init 7 ''Unknown'' 0 20) \<and>
   \<not> triggered (Alert_init 7 ''Unknown'' 0 20) \<and>
   map_of (pending_alerts (cancel_alert scenario_alerts 7)) 7 = None \<and>
   map_of (pending_alerts (check_alerts scenario_alerts 1260000000)) 7 =
     Some ((Alert_init 7 ''Unknown'' 0 20)\<lparr>triggered := True\<rparr>) \<and>
   cancel_alert (check_alerts scenario_alerts 1260000000) 7 =
     check_alerts scenario_alerts 1260000000 \<and>
   map_of (pending_alerts scenario_alerts) 8 = None \<and>
   cancel_alert scenario_alerts 8 = scenario_alerts \<and>
   pending_alerts (AlertManager_init (Some 20)) = [] \<and>
   get_pending_alerts
     (cancel_alert (add_pending_alert (AlertManager_init (Some 20)) departed_person) 7) = [] \<and>
   get_triggered_alerts
     (cancel_alert (add_pending_alert (AlertManager_init (Some 20)) departed_person) 7) = []"
proof -
  have d: "distinct (map fst (pending_alerts scenario_alerts))" by code_simp
  have d1: "distinct (map fst (pending_alerts (check_alerts scenario_alerts 1260000000)))"
    by code_simp
  have d2: "distinct (map fst (pending_alerts (AlertManager_init (Some 20))))" by code_simp
  have s7: "map_of (pending_alerts scenario_alerts) 7 = Some (Alert_init 7 ''Unknown'' 0 20)"
    by code_simp
  have nt: "\<not> triggered (Alert_init 7 ''Unknown'' 0 20)" by code_simp
  have t7: "map_of (pending_alerts (check_alerts scenario_alerts 1260000000)) 7 =
     Some ((Alert_init 7 ''Unknown'' 0 20)\<lparr>triggered := True\<rparr>)" by code_simp
  have n8: "map_of (pending_alerts scenario_alerts) 8 = None" by code_simp
  have e: "pending_alerts (AlertManager_init (Some 20)) = []" by code_simp
  have p7: "tracking_id departed_person = 7" by code_simp
  have a: "map_of (pending_alerts (cancel_alert scenario_alerts 7)) 7 = None"
    using cancel_alert_effect [OF d, of 7 departed_person] s7 nt by blast
  have b: "cancel_alert (check_alerts scenario_alerts 1260000000) 7 =
     check_alerts scenario_alerts 1260000000"
    using cancel_alert_effect [OF d1, of 7 departed_person] t7 by simp
  have c: "cancel_alert scenario_alerts 8 = scenario_alerts"
    using cancel_alert_effect [OF d, of 8 departed_person] n8 by blast
  have f: "get_pending_alerts
     (cancel_alert (add_pending_alert (AlertManager_init (Some 20)) departed_person) 7) = [] \<and>
   get_triggered_alerts
     (cancel_alert (add_pending_alert (AlertManager_init (Some 20)) departed_person) 7) = []"
    using cancel_alert_effect [OF d2, of 7 departed_person] e unfolding p7 by blast
  show ?thesis using d s7 nt a t7 b n8 c e f by simp
qed

subsection \<open>Tracker loops\<close>

lemma dict_modify_upd_entry:
  "distinct (map fst d) \<Longrightarrow> dict_modify d k f = upd_entry k f d"
  by (simp add: dict_modify_map upd_entry_def)

lemma keys_upd_entry: "map fst (upd_entry k g d) = map fst d"
  by (simp add: upd_entry_def comp_def case_prod_unfold)

lemma map_of_upd_entry:
  "map_of (upd_entry k g d) k' = (if k' = k then map_option g (map_of d k) else map_of d k')"
  by (simp add: upd_entry_def map_of_map_upd)

lemma upd_entry_id: "(\<And>v. (k, v) \<in> set d \<Longrightarrow> g v = v) \<Longrightarrow> upd_entry k g d = d"
  unfolding upd_entry_def by (induction d) auto

text \<open>A loop that applies one function per key, over distinct keys, is one pass over the dict.\<close>

lemma foldl_upd_entries:
  "distinct (map fst kgs) \<Longrightarrow>
   foldl (\<lambda>t (k, g). t\<lparr>objects := upd_entry k g (objects t)\<rparr>) t kgs =
   t\<lparr>objects := map (\<lambda>(k', v). (k', case map_of kgs k' of None \<Rightarrow> v | Some g \<Rightarrow> g v)) (objects t)\<rparr>"
proof (induction kgs arbitrary: t)
  case Nil
  then show ?case by (simp add: case_prod_unfold)
next
  case (Cons x kgs)
  obtain k g where x: "x = (k, g)" by (cases x)
  have nk: "map_of kgs k = None" using Cons.prems x by (simp add: map_of_eq_None_iff)
  have d: "distinct (map fst kgs)" using Cons.prems by simp
  have "map (\<lambda>(k', v). (k', case map_of kgs k' of None \<Rightarrow> v | Some g \<Rightarrow> g v))
          (upd_entry k g (objects t)) =
        map (\<lambda>(k', v). (k', case map_of (x # kgs) k' of None \<Rightarrow> v | Some g \<Rightarrow> g v)) (objects t)"
    unfolding upd_entry_def map_map
    by (rule map_cong [OF refl]) (auto simp: x nk)
  then show ?case
    unfolding foldl_Cons x prod.case Cons.IH [OF d] by simp
qed

lemma foldl_cong_inv:
  assumes "I t" and "\<And>t x. I t \<Longrightarrow> x \<in> set xs \<Longrightarrow> f t x = g t x \<and> I (g t x)"
  shows "foldl f t xs = foldl g t xs \<and> I (foldl g t xs)"
  using assms
proof (induction xs arbitrary: t)
  case Nil
  then show ?case by simp
next
  case (Cons x xs)
  have 1: "f t x = g t x" and 2: "I (g t x)" using Cons.prems by simp_all
  have "foldl f (g t x) xs = foldl g (g t x) xs \<and> I (foldl g (g t x) xs)"
    using Cons.prems(2) by (intro Cons.IH [OF 2]) simp
  then show ?case using 1 by simp
qed

subsection \<open>One disappearance\<close>

lemma upd_entry_cong_at:
  assumes "distinct (map fst d)" "map_of d k = Some p" "g p = h p"
  shows "upd_entry k g d = upd_entry k h d"
  unfolding upd_entry_def
proof (rule map_cong [OF refl])
  fix x assume x: "x \<in> set d"
  obtain k' b where kb: "x = (k', b)" by (cases x)
  have "b = p" if "k' = k"
    using that x kb eq_key_imp_eq_value [OF assms(1), of k b p] map_of_SomeD [OF assms(2)] by simp
  then show "(case x of (k', v) \<Rightarrow> (k', if k' = k then g v else v)) =
             (case x of (k', v) \<Rightarrow> (k', if k' = k then h v else v))"
    using assms(3) by (auto simp: kb)
qed

lemma upd_entry_upd_entry:
  "upd_entry k g (upd_entry k h d) = upd_entry k (\<lambda>v. g (h v)) d"
  unfolding upd_entry_def map_map by (rule map_cong [OF refl]) auto

lemma mark_disappeared_char:
  assumes "distinct (map fst (objects t))"
  shows "mark_disappeared now t tid =
         t\<lparr>objects := upd_entry tid (disappear (max_disappeared t) now) (objects t)\<rparr>"
proof (cases "map_of (objects t) tid")
  case None
  then have "upd_entry tid (disappear (max_disappeared t) now) (objects t) = objects t"
    by (intro upd_entry_id) (use assms in auto)
  then show ?thesis using None
    by (simp add: mark_disappeared_def dict_modify_def)
next
  case (Some p)
  let ?g = "\<lambda>person. person\<lparr>disappeared_frames := disappeared_frames person + 1, last_seen := now\<rparr>"
  let ?t1 = "t\<lparr>objects := upd_entry tid ?g (objects t)\<rparr>"
  have d1: "distinct (map fst (objects ?t1))"
    using assms by (simp add: keys_upd_entry)
  have m: "mark_disappeared now t tid =
     (if disappeared_frames (?g p) > max_disappeared t then deregister ?t1 tid else ?t1)"
    using Some by (simp add: mark_disappeared_def Let_def dict_modify_upd_entry [OF assms]
        map_of_upd_entry)
  show ?thesis
  proof (cases "disappeared_frames (?g p) > max_disappeared t")
    case True
    have "deregister ?t1 tid = t\<lparr>objects := upd_entry tid (\<lambda>v. (?g v)\<lparr>is_active := False\<rparr>) (objects t)\<rparr>"
      unfolding deregister_def dict_modify_upd_entry [OF d1] by (simp add: upd_entry_upd_entry)
    moreover have "upd_entry tid (\<lambda>v. (?g v)\<lparr>is_active := False\<rparr>) (objects t) =
          upd_entry tid (disappear (max_disappeared t) now) (objects t)"
      using True by (intro upd_entry_cong_at [OF assms Some]) (simp add: disappear_def)
    ultimately show ?thesis using m True by simp
  next
    case False
    have "upd_entry tid ?g (objects t) =
          upd_entry tid (disappear (max_disappeared t) now) (objects t)"
      using False by (intro upd_entry_cong_at [OF assms Some]) (simp add: disappear_def)
    then show ?thesis using m False by simp
  qed
qed

lemma foldl_upd_keys:
  assumes "distinct ks"
  shows "foldl (\<lambda>t k. t\<lparr>objects := upd_entry k (G k) (objects t)\<rparr>) t ks =
   t\<lparr>objects := map (\<lambda>(k', v). (k', if k' \<in> set ks then G k' v else v)) (objects t)\<rparr>"
proof -
  let ?kgs = "map (\<lambda>k. (k, G k)) ks"
  have d: "distinct (map fst ?kgs)" using assms by (simp add: comp_def)
  have f: "foldl (\<lambda>t k. t\<lparr>objects := upd_entry k (G k) (objects t)\<rparr>) t ks =
        foldl (\<lambda>t (k, g). t\<lparr>objects := upd_entry k g (objects t)\<rparr>) t ?kgs"
    by (simp add: foldl_map)
  have m: "(case map_of ?kgs k' of None \<Rightarrow> v | Some g \<Rightarrow> g v) =
           (if k' \<in> set ks then G k' v else v)" for k' and v :: TrackedPerson
    by (simp add: map_of_map_restrict restrict_map_def)
  show ?thesis unfolding f foldl_upd_entries [OF d] m ..
qed

subsection \<open>A frame without detections\<close>

lemma empty_frame_body_char:
  assumes "distinct (map fst (objects t))"
  shows "empty_frame_body cam now t tid =
     t\<lparr>objects := upd_entry tid
         (\<lambda>p. if is_active p \<and> camera_id p = cam then disappear (max_disappeared t) now p else p)
         (objects t)\<rparr>"
proof (cases "map_of (objects t) tid")
  case None
  then have "upd_entry tid
         (\<lambda>p. if is_active p \<and> camera_id p = cam then disappear (max_disappeared t) now p else p)
         (objects t) = objects t"
    by (intro upd_entry_id) (use assms in auto)
  then show ?thesis using None by (simp add: empty_frame_body_def)
next
  case (Some p)
  show ?thesis
  proof (cases "is_active p \<and> camera_id p = cam")
    case True
    have "upd_entry tid (disappear (max_disappeared t) now) (objects t) =
          upd_entry tid
         (\<lambda>p. if is_active p \<and> camera_id p = cam then disappear (max_disappeared t) now p else p)
         (objects t)"
      using True by (intro upd_entry_cong_at [OF assms Some]) simp
    then show ?thesis using Some True
      by (simp add: empty_frame_body_def mark_disappeared_char [OF assms])
  next
    case False
    have "upd_entry tid (\<lambda>p. p) (objects t) =
          upd_entry tid
         (\<lambda>p. if is_active p \<and> camera_id p = cam then disappear (max_disappeared t) now p else p)
         (objects t)"
      using False by (intro upd_entry_cong_at [OF assms Some]) auto
    moreover have "upd_entry tid (\<lambda>p. p) (objects t) = objects t"
      by (intro upd_entry_id) simp
    ultimately have eq: "upd_entry tid
         (\<lambda>p. if is_active p \<and> camera_id p = cam then disappear (max_disappeared t) now p else p)
         (objects t) = objects t" by simp
    show ?thesis unfolding eq using Some False by (auto simp: empty_frame_body_def)
  qed
qed

lemma update_empty:
  assumes "distinct (map fst (objects t))"
  shows "update t [] cam now =
     t\<lparr>objects := map (\<lambda>(k, p). (k, if is_active p \<and> camera_id p = cam
                                      then disappear (max_disappeared t) now p else p))
                    (objects t)\<rparr>"
proof -
  let ?md = "max_disappeared t"
  let ?g = "\<lambda>p. if is_active p \<and> camera_id p = cam then disappear ?md now p else p"
  let ?I = "\<lambda>t' :: CentroidTracker. distinct (map fst (objects t')) \<and> max_disappeared t' = ?md"
  let ?step = "\<lambda>(t' :: CentroidTracker) k. t'\<lparr>objects := upd_entry k ?g (objects t')\<rparr>"
  have "foldl (empty_frame_body cam now) t (map fst (objects t)) =
        foldl ?step t (map fst (objects t)) \<and> ?I (foldl ?step t (map fst (objects t)))"
  proof (rule foldl_cong_inv [where I = ?I])
    show "?I t" using assms by simp
  next
    fix t' x assume I: "?I t'"
    then have d: "distinct (map fst (objects t'))" and md: "max_disappeared t' = ?md" by simp_all
    show "empty_frame_body cam now t' x = ?step t' x \<and> ?I (?step t' x)"
      unfolding empty_frame_body_char [OF d] md using I by (simp add: keys_upd_entry)
  qed
  then have "update t [] cam now = foldl ?step t (map fst (objects t))"
    by (simp add: update_def)
  also have "\<dots> = t\<lparr>objects := map (\<lambda>(k', v). (k', if k' \<in> set (map fst (objects t)) then ?g v else v)) (objects t)\<rparr>"
    by (rule foldl_upd_keys [OF assms])
  also have "map (\<lambda>(k', v). (k', if k' \<in> set (map fst (objects t)) then ?g v else v)) (objects t) =
             map (\<lambda>(k, p). (k, ?g p)) (objects t)"
    by (rule map_cong [OF refl]) force
  finally show ?thesis .
qed

subsection \<open>Departure after consecutive empty frames\<close>

lemma no_active_step:
  "filter (\<lambda>(k, v). is_active v) d = [] \<Longrightarrow>
   map (\<lambda>(k, p). (k, if is_active p \<and> camera_id p = cam then disappear md now p else p)) d = d"
  by (induction d) (auto split: if_splits)

lemma one_active_step:
  "filter (\<lambda>(k, v). is_active v) d = [(k, p)] \<Longrightarrow> camera_id p = cam \<Longrightarrow>
   filter (\<lambda>(k, v). is_active v)
     (map (\<lambda>(k, p). (k, if is_active p \<and> camera_id p = cam then disappear md now p else p)) d) =
   (if disappeared_frames p + 1 \<le> md then [(k, disappear md now p)] else [])"
proof (induction d)
  case Nil
  then show ?case by simp
next
  case (Cons x d)
  obtain k0 v0 where x: "x = (k0, v0)" by (cases x)
  show ?case
  proof (cases "is_active v0")
    case True
    then have eq: "(k0, v0) = (k, p)" and rest: "filter (\<lambda>(k, v). is_active v) d = []"
      using Cons.prems(1) x by simp_all
    have "map (\<lambda>(k, p). (k, if is_active p \<and> camera_id p = cam then disappear md now p else p)) d = d"
      using rest by (rule no_active_step)
    then show ?thesis using True eq rest x Cons.prems(2) by (simp add: disappear_def)
  next
    case False
    then show ?thesis using Cons x by simp
  qed
qed

lemma feed_empty_no_active:
  assumes "distinct (map fst (objects t))" "get_active_persons t None = []"
  shows "feed_empty t cam nows = t"
proof (induction nows)
  case Nil
  then show ?case by (simp add: feed_empty_def)
next
  case (Cons now nows)
  have "update t [] cam now = t"
    using assms(2) by (simp add: update_empty [OF assms(1)] get_active_persons_def no_active_step)
  then show ?case using Cons by (simp add: feed_empty_def)
qed

lemma feed_empty_one_active:
  assumes "distinct (map fst (objects t))"
    and "get_active_persons t None = [(k, p)]"
    and "camera_id p = cam"
    and "disappeared_frames p \<le> max_disappeared t"
  shows "(\<exists>p'. map_of (objects (feed_empty t cam nows)) k = Some p' \<and>
            is_active p' = (disappeared_frames p + int (length nows) \<le> max_disappeared t) \<and>
            disappeared_frames p' =
              min (disappeared_frames p + int (length nows)) (max_disappeared t + 1)) \<and>
         map fst (get_active_persons (feed_empty t cam nows) None) =
           (if disappeared_frames p + int (length nows) \<le> max_disappeared t then [k] else [])"
  using assms
proof (induction nows arbitrary: t p)
  case Nil
  have "(k, p) \<in> set (filter (\<lambda>(k, v). is_active v) (objects t))"
    using Nil.prems(2) by (simp add: get_active_persons_def)
  then have "map_of (objects t) k = Some p" "is_active p"
    using Nil.prems(1) by auto
  then show ?case using Nil.prems by (simp add: feed_empty_def)
next
  case (Cons now nows)
  let ?md = "max_disappeared t"
  let ?t1 = "update t [] cam now"
  let ?p1 = "disappear ?md now p"
  have act: "filter (\<lambda>(k, v). is_active v) (objects t) = [(k, p)]"
    using Cons.prems(2) by (simp add: get_active_persons_def)
  then have "(k, p) \<in> set (filter (\<lambda>(k, v). is_active v) (objects t))" by simp
  then have lk: "map_of (objects t) k = Some p" and ap: "is_active p"
    using Cons.prems(1) by auto
  have t1: "?t1 = t\<lparr>objects := map (\<lambda>(k, p). (k, if is_active p \<and> camera_id p = cam
                                      then disappear ?md now p else p)) (objects t)\<rparr>"
    by (rule update_empty [OF Cons.prems(1)])
  have d1: "distinct (map fst (objects ?t1))"
    using Cons.prems(1) by (simp add: t1 comp_def case_prod_unfold)
  have md1: "max_disappeared ?t1 = ?md" by (simp add: t1)
  have act1: "get_active_persons ?t1 None =
      (if disappeared_frames p + 1 \<le> ?md then [(k, ?p1)] else [])"
    using one_active_step [OF act Cons.prems(3)] by (simp add: get_active_persons_def t1)
  have lk1: "map_of (objects ?t1) k = Some ?p1"
    using lk ap Cons.prems(3) by (simp add: t1 map_of_map_val)
  have fe: "feed_empty t cam (now # nows) = feed_empty ?t1 cam nows"
    by (simp add: feed_empty_def)
  show ?case
  proof (cases "disappeared_frames p + 1 \<le> ?md")
    case True
    have a1: "get_active_persons ?t1 None = [(k, ?p1)]" using act1 True by simp
    have c1: "camera_id ?p1 = cam" using Cons.prems(3) by (simp add: disappear_def)
    have df1: "disappeared_frames ?p1 \<le> max_disappeared ?t1"
      using True by (simp add: disappear_def md1)
    have df: "disappeared_frames ?p1 = disappeared_frames p + 1" by (simp add: disappear_def)
    show ?thesis
      using Cons.IH [OF d1 a1 c1 df1] unfolding fe md1 df by (simp add: add.assoc)
  next
    case False
    have a1: "get_active_persons ?t1 None = []" using act1 False by simp
    have same: "feed_empty ?t1 cam nows = ?t1" by (rule feed_empty_no_active [OF d1 a1])
    have eq: "disappeared_frames p = ?md" using False Cons.prems(4) by simp
    show ?thesis
      unfolding fe same using lk1 a1 False eq by (simp add: disappear_def)
  qed
qed

text \<open>
  Claim C6, as the code has it. A tracker holds exactly one active identity, whose
  disappearance count is \<open>d\<close> with \<open>0 \<le> d \<le> max_disappeared\<close>. After \<open>n\<close> consecutive empty
  frames of its camera the identity is active exactly when \<open>d + n \<le> max_disappeared\<close>: it
  departs on empty frame number \<open>max_disappeared + 1 - d\<close> (number \<open>max_disappeared + 1\<close> when
  \<open>d = 0\<close>), not earlier, its count then stays at \<open>max_disappeared + 1\<close>, it is never active
  again, and after more than \<open>max_disappeared\<close> empty frames no person is active.
\<close>

theorem one_identity_departs:
  assumes "distinct (map fst (objects t))"
    and "get_active_persons t None = [(k, p)]"
    and "camera_id p = cam"
    and "0 \<le> disappeared_frames p"
    and "disappeared_frames p \<le> max_disappeared t"
  shows "(\<exists>p'. map_of (objects (feed_empty t cam nows)) k = Some p' \<and>
            is_active p' = (disappeared_frames p + int (length nows) \<le> max_disappeared t) \<and>
            disappeared_frames p' =
              min (disappeared_frames p + int (length nows)) (max_disappeared t + 1)) \<and>
         map fst (get_active_persons (feed_empty t cam nows) None) =
           (if disappeared_frames p + int (length nows) \<le> max_disappeared t then [k] else []) \<and>
         (max_disappeared t < int (length nows) \<longrightarrow>
            get_active_persons (feed_empty t cam nows) None = [])"
proof -
  note main = feed_empty_one_active [OF assms(1) assms(2) assms(3) assms(5), of nows]
  have "get_active_persons (feed_empty t cam nows) None = []"
    if "max_disappeared t < int (length nows)"
  proof -
    have "\<not> disappeared_frames p + int (length nows) \<le> max_disappeared t"
      using that assms(4) by simp
    then have "map fst (get_active_persons (feed_empty t cam nows) None) = []"
      using main by simp
    then show ?thesis by simp
  qed
  then show ?thesis using main by blast
qed

theorem one_identity_departs_witness:
  "distinct (map fst (objects one_person_tracker)) \<and>
   get_active_persons one_person_tracker None =
     [(1, new_person 1 (125, 150) (100, 100, 50, 100) (9 / 10) ''cam1'' 0)] \<and>
   camera_id (new_person 1 (125, 150) (100, 100, 50, 100) (9 / 10) ''cam1'' 0) = ''cam1'' \<and>
   disappeared_frames (new_person 1 (125, 150) (100, 100, 50, 100) (9 / 10) ''cam1'' 0) = 0 \<and>
   max_disappeared one_person_tracker = 5 \<and>
   map fst (get_active_persons (feed_empty one_person_tracker ''cam1'' [1, 2, 3, 4, 5]) None) = [1] \<and>
   get_active_persons (feed_empty one_person_tracker ''cam1'' [1, 2, 3, 4, 5, 6]) None = [] \<and>
   get_active_persons (feed_empty one_person_tracker ''cam1'' [1, 2, 3, 4, 5, 6, 7, 8]) None = []"
proof -
  let ?p = "new_person 1 (125, 150) (100, 100, 50, 100) (9 / 10) ''cam1'' 0"
  have d: "distinct (map fst (objects one_person_tracker))" by code_simp
  have a: "get_active_persons one_person_tracker None = [(1, ?p)]" by code_simp
  have c: "camera_id ?p = ''cam1''" by (simp add: new_person_def)
  have z: "disappeared_frames ?p = 0" by (simp add: new_person_def)
  have z0: "0 \<le> disappeared_frames ?p" by (simp add: new_person_def)
  have m: "max_disappeared one_person_tracker = 5" by code_simp
  have le: "disappeared_frames ?p \<le> max_disappeared one_person_tracker"
    unfolding m z by simp
  have 1: "map fst (get_active_persons (feed_empty one_person_tracker ''cam1'' [1, 2, 3, 4, 5]) None) = [1]"
    using one_identity_departs [OF d a c z0 le, of "[1, 2, 3, 4, 5]"] unfolding m z by simp
  have 2: "get_active_persons (feed_empty one_person_tracker ''cam1'' [1, 2, 3, 4, 5, 6]) None = []"
    using one_identity_departs [OF d a c z0 le, of "[1, 2, 3, 4, 5, 6]"] unfolding m z by simp
  have 3: "get_active_persons (feed_empty one_person_tracker ''cam1'' [1, 2, 3, 4, 5, 6, 7, 8]) None = []"
    using one_identity_departs [OF d a c z0 le, of "[1, 2, 3, 4, 5, 6, 7, 8]"] unfolding m z by simp
  show ?thesis using d a c z m 1 2 3 by simp
qed

text \<open>
  The claim as stated fails for an identity that has already missed frames. After two
  empty frames the tracker still holds exactly one active identity (count 2); it departs
  on the fourth further empty frame, not on the sixth. Likewise, in the scenario of the
  specification, identity 2 misses the frame in which only identity 1 is seen and then
  departs on the fifth empty frame, one frame before identity 1.
\<close>

theorem departs_before_max_plus_one_counterexample:
  "map (\<lambda>(k, p). (k, disappeared_frames p))
     (get_active_persons (feed_empty one_person_tracker ''cam1'' [1, 2]) None) = [(1, 2)] \<and>
   max_disappeared (feed_empty one_person_tracker ''cam1'' [1, 2]) = 5 \<and>
   map fst (get_active_persons
     (feed_empty (feed_empty one_person_tracker ''cam1'' [1, 2]) ''cam1'' [3, 4, 5]) None) = [1] \<and>
   get_active_persons
     (feed_empty (feed_empty one_person_tracker ''cam1'' [1, 2]) ''cam1'' [3, 4, 5, 6]) None = [] \<and>
   map fst (get_active_persons
     (feed_empty (update two_person_tracker [detection_at (130, 155)] ''cam1'' 1) ''cam1''
        [2, 3, 4, 5]) None) = [1, 2] \<and>
   map fst (get_active_persons
     (feed_empty (update two_person_tracker [detection_at (130, 155)] ''cam1'' 1) ''cam1''
        [2, 3, 4, 5, 6]) None) = [1]"
  by code_simp

subsection \<open>The matching loop and its trace\<close>

lemma match_trace_rows:
  "fst ` set (match_trace bound D rcs ur uc) \<subseteq> fst ` set rcs - ur"
  by (induction bound D rcs ur uc rule: match_trace.induct) (auto split: if_splits)

lemma match_trace_cols:
  "snd ` set (match_trace bound D rcs ur uc) \<subseteq> snd ` set rcs - uc"
  by (induction bound D rcs ur uc rule: match_trace.induct) (auto split: if_splits)

lemma match_trace_subset:
  "set (match_trace bound D rcs ur uc) \<subseteq> set rcs"
  by (induction bound D rcs ur uc rule: match_trace.induct) (auto split: if_splits)

lemma match_trace_distinct_rows:
  "distinct (map fst (match_trace bound D rcs ur uc))"
proof (induction bound D rcs ur uc rule: match_trace.induct)
  case (1 bound D ur uc)
  then show ?case by simp
next
  case (2 bound D row col rest ur uc)
  have "row \<notin> fst ` set (match_trace bound D rest (insert row ur) (insert col uc))"
    using match_trace_rows [of bound D rest "insert row ur" "insert col uc"] by auto
  then show ?case using 2 by auto
qed

lemma match_trace_distinct_cols:
  "distinct (map snd (match_trace bound D rcs ur uc))"
proof (induction bound D rcs ur uc rule: match_trace.induct)
  case (1 bound D ur uc)
  then show ?case by simp
next
  case (2 bound D row col rest ur uc)
  have "col \<notin> snd ` set (match_trace bound D rest (insert row ur) (insert col uc))"
    using match_trace_cols [of bound D rest "insert row ur" "insert col uc"] by auto
  then show ?case using 2 by auto
qed

lemma match_loop_trace:
  "foldl (match_body D object_ids detections now) (t, ur, uc) rcs =
   (foldl (\<lambda>t' (row, col). t'\<lparr>objects := dict_modify (objects t') (object_ids ! row)
                                  (matched now (detections ! col))\<rparr>)
      t (match_trace (max_distance t) D rcs ur uc),
    ur \<union> fst ` set (match_trace (max_distance t) D rcs ur uc),
    uc \<union> snd ` set (match_trace (max_distance t) D rcs ur uc))"
proof (induction rcs arbitrary: t ur uc)
  case Nil
  then show ?case by simp
next
  case (Cons rc rcs)
  obtain row col where rc: "rc = (row, col)" by (cases rc)
  show ?case
  proof (cases "row \<in> ur \<or> col \<in> uc \<or> exceeds (D ! row ! col) (max_distance t)")
    case True
    then have "match_body D object_ids detections now (t, ur, uc) rc = (t, ur, uc)"
      by (auto simp: match_body_def rc)
    moreover have "match_trace (max_distance t) D (rc # rcs) ur uc =
                   match_trace (max_distance t) D rcs ur uc"
      using True by (auto simp: rc)
    ultimately show ?thesis using Cons.IH [of t ur uc] by simp
  next
    case False
    let ?t1 = "t\<lparr>objects := dict_modify (objects t) (object_ids ! row)
                                  (matched now (detections ! col))\<rparr>"
    have mt: "matched now (detections ! col) =
        (\<lambda>person. person\<lparr>centroid := center (detections ! col),
            bbox := det_bbox (detections ! col), confidence := det_confidence (detections ! col),
            disappeared_frames := 0, last_seen := now\<rparr>)"
      by (rule ext) (simp add: matched_def)
    have b: "match_body D object_ids detections now (t, ur, uc) rc =
             (?t1, insert row ur, insert col uc)"
      using False unfolding mt by (simp add: match_body_def rc Let_def)
    have tr: "match_trace (max_distance t) D (rc # rcs) ur uc =
              (row, col) # match_trace (max_distance t) D rcs (insert row ur) (insert col uc)"
      using False by (simp add: rc)
    have md: "max_distance ?t1 = max_distance t" by simp
    show ?thesis
      unfolding foldl_Cons b tr Cons.IH [of ?t1 "insert row ur" "insert col uc"] md
      by auto
  qed
qed

subsection \<open>Registration\<close>

lemma tracker_inv_fresh:
  "tracker_inv t \<Longrightarrow> next_object_id t \<notin> set (map fst (objects t))"
  by (auto simp: tracker_inv_def list_all_iff)

lemma register_det_char:
  assumes "tracker_inv t"
  shows "register_det cam now t det =
     t\<lparr>next_object_id := next_object_id t + 1,
       objects := objects t @
         [(next_object_id t, new_person (next_object_id t) (center det) (det_bbox det)
             (det_confidence det) cam now)]\<rparr>"
  using tracker_inv_fresh [OF assms]
  by (simp add: register_det_def register_def Let_def dict_set_fresh)

lemma register_det_inv:
  assumes "tracker_inv t"
  shows "tracker_inv (register_det cam now t det)"
  using assms unfolding register_det_char [OF assms]
  by (auto simp: tracker_inv_def list_all_iff new_person_def)

lemma register_loop:
  assumes "tracker_inv t"
  shows "foldl (\<lambda>t' col. register_det cam now t' (detections ! col)) t cols =
     t\<lparr>next_object_id := next_object_id t + int (length cols),
       objects := objects t @ registered (next_object_id t) detections cam now cols\<rparr>"
  using assms
proof (induction cols arbitrary: t)
  case Nil
  then show ?case by simp
next
  case (Cons col cols)
  let ?t1 = "register_det cam now t (detections ! col)"
  have i1: "tracker_inv ?t1" using Cons.prems by (rule register_det_inv)
  show ?case
    unfolding foldl_Cons Cons.IH [OF i1]
    by (simp add: register_det_char [OF Cons.prems])
qed

lemma register_all:
  assumes "tracker_inv t"
  shows "foldl (register_det cam now) t detections =
     t\<lparr>next_object_id := next_object_id t + int (length detections),
       objects := objects t @
         registered (next_object_id t) detections cam now [0..<length detections]\<rparr>"
proof -
  have "foldl (register_det cam now) t detections =
        foldl (register_det cam now) t (map (\<lambda>col. detections ! col) [0..<length detections])"
    by (simp add: map_nth)
  also have "\<dots> = foldl (\<lambda>t' col. register_det cam now t' (detections ! col)) t
                     [0..<length detections]"
    by (simp add: foldl_map)
  finally show ?thesis by (simp add: register_loop [OF assms])
qed

lemma registered_keys:
  "map fst (registered n detections cam now cols) = map (\<lambda>i. n + int i) [0..<length cols]"
proof (induction cols arbitrary: n)
  case Nil
  then show ?case by simp
next
  case (Cons col cols)
  have "map (\<lambda>i. n + int i) [0..<length (col # cols)] =
        n # map (\<lambda>i. n + 1 + int i) [0..<length cols]"
    by (simp add: upt_conv_Cons map_Suc_upt [symmetric] del: upt_Suc)
  then show ?case using Cons by simp
qed

lemma registered_new:
  "(k, p) \<in> set (registered n detections cam now cols) \<Longrightarrow>
   n \<le> k \<and> k < n + int (length cols) \<and> tracking_id p = k \<and> is_active p \<and>
   camera_id p = cam \<and> disappeared_frames p = 0"
  by (induction cols arbitrary: n) (fastforce simp: new_person_def)+

lemma length_registered: "length (registered n detections cam now cols) = length cols"
  by (induction cols arbitrary: n) auto

subsection \<open>One update, as a whole\<close>

lemma active_ids_distinct:
  "distinct (map fst (objects t)) \<Longrightarrow> distinct (map fst (active_objects t cam))"
  by (simp add: active_objects_def distinct_map_filter)

lemma active_ids_iff:
  assumes "distinct (map fst (objects t))" "(k, v) \<in> set (objects t)"
  shows "(k \<in> set (map fst (active_objects t cam))) = (is_active v \<and> camera_id v = cam)"
proof
  assume "k \<in> set (map fst (active_objects t cam))"
  then obtain v' where v': "(k, v') \<in> set (objects t)" "is_active v' \<and> camera_id v' = cam"
    by (auto simp: active_objects_def)
  then have "v' = v" using eq_key_imp_eq_value [OF assms(1)] assms(2) by blast
  then show "is_active v \<and> camera_id v = cam" using v' by simp
next
  assume "is_active v \<and> camera_id v = cam"
  then have "(k, v) \<in> set (active_objects t cam)" using assms(2) by (simp add: active_objects_def)
  then show "k \<in> set (map fst (active_objects t cam))" by force
qed

lemma length_update_matrix:
  "length (update_matrix t detections cam) = length (active_objects t cam)"
  by (simp add: update_matrix_def cdist_def)

lemma set_argsort: "set (argsort xs) = {0..<length xs}"
  by (simp add: argsort_def)

lemma update_unfold:
  assumes "detections \<noteq> []" "active_objects t cam \<noteq> []"
  shows "update t detections cam now =
    (let object_ids = map fst (active_objects t cam);
         D = update_matrix t detections cam;
         rows = argsort (map min_list D);
         cols = map (\<lambda>row. argmin (D ! row)) rows;
         (t1, used_rows, used_cols) =
            foldl (match_body D object_ids detections now) (t, {}, {}) (zip rows cols);
         unused_rows = filter (\<lambda>row. row \<notin> used_rows) [0..<length D];
         t2 = foldl (\<lambda>t' row. mark_disappeared now t' (object_ids ! row)) t1 unused_rows;
         unused_cols = filter (\<lambda>col. col \<notin> used_cols) [0..<length detections]
     in foldl (\<lambda>t' col. register_det cam now t' (detections ! col)) t2 unused_cols)"
  using assms by (simp add: update_def update_matrix_def Let_def)

text \<open>The loop of assignments, as one pass over the dict.\<close>

lemma assign_loop:
  fixes t :: CentroidTracker
  assumes d: "distinct (map fst (objects t))"
    and dk: "distinct (map (\<lambda>(row, col). object_ids ! row) tr)"
  shows "foldl (\<lambda>t' (row, col). t'\<lparr>objects := dict_modify (objects t') (object_ids ! row)
                                  (matched now (detections ! col))\<rparr>) t tr =
         t\<lparr>objects := map (\<lambda>(k, v). (k,
              case map_of (map (\<lambda>(row, col). (object_ids ! row, col)) tr) k of
                None \<Rightarrow> v | Some col \<Rightarrow> matched now (detections ! col) v)) (objects t)\<rparr>"
proof -
  let ?I = "\<lambda>t' :: CentroidTracker. distinct (map fst (objects t'))"
  let ?f = "\<lambda>(t' :: CentroidTracker) (row, col). t'\<lparr>objects := dict_modify (objects t') (object_ids ! row)
                                  (matched now (detections ! col))\<rparr>"
  let ?g = "\<lambda>(t' :: CentroidTracker) (row, col). t'\<lparr>objects := upd_entry (object_ids ! row)
                                  (matched now (detections ! col)) (objects t')\<rparr>"
  let ?kgs = "map (\<lambda>(row, col). (object_ids ! row, matched now (detections ! col))) tr"
  have "foldl ?f t tr = foldl ?g t tr \<and> ?I (foldl ?g t tr)"
  proof (rule foldl_cong_inv [where I = ?I])
    show "?I t" by (rule d)
  next
    fix t' :: CentroidTracker and x assume "?I t'"
    then show "?f t' x = ?g t' x \<and> ?I (?g t' x)"
      by (cases x) (simp add: dict_modify_upd_entry keys_upd_entry)
  qed
  then have "foldl ?f t tr = foldl ?g t tr" by simp
  also have "\<dots> = foldl (\<lambda>t' (k, g). t'\<lparr>objects := upd_entry k g (objects t')\<rparr>) t ?kgs"
    by (simp add: foldl_map case_prod_unfold)
  also have "\<dots> = t\<lparr>objects := map (\<lambda>(k', v). (k', case map_of ?kgs k' of None \<Rightarrow> v | Some g \<Rightarrow> g v))
                      (objects t)\<rparr>"
  proof (rule foldl_upd_entries)
    show "distinct (map fst ?kgs)" using dk by (simp add: comp_def case_prod_unfold)
  qed
  finally have main: "foldl ?f t tr =
      t\<lparr>objects := map (\<lambda>(k', v). (k', case map_of ?kgs k' of None \<Rightarrow> v | Some g \<Rightarrow> g v))
                      (objects t)\<rparr>" .
  have fn: "(case map_of ?kgs k' of None \<Rightarrow> v | Some g \<Rightarrow> g v) =
            (case map_of (map (\<lambda>(row, col). (object_ids ! row, col)) tr) k' of
                None \<Rightarrow> v | Some col \<Rightarrow> matched now (detections ! col) v)"
    for k' and v :: TrackedPerson
    by (induction tr) auto
  show ?thesis unfolding main fn ..
qed

text \<open>The loop over the unmatched rows, as one pass over the dict.\<close>

lemma miss_loop:
  fixes t :: CentroidTracker
  assumes d: "distinct (map fst (objects t))" and dk: "distinct ks"
  shows "foldl (mark_disappeared now) t ks =
         t\<lparr>objects := map (\<lambda>(k', v). (k', if k' \<in> set ks
                 then disappear (max_disappeared t) now v else v)) (objects t)\<rparr>"
proof -
  let ?md = "max_disappeared t"
  let ?I = "\<lambda>t' :: CentroidTracker. distinct (map fst (objects t')) \<and> max_disappeared t' = ?md"
  let ?g = "\<lambda>(t' :: CentroidTracker) k. t'\<lparr>objects := upd_entry k (disappear ?md now) (objects t')\<rparr>"
  have "foldl (mark_disappeared now) t ks = foldl ?g t ks \<and> ?I (foldl ?g t ks)"
  proof (rule foldl_cong_inv [where I = ?I])
    show "?I t" using d by simp
  next
    fix t' :: CentroidTracker and x assume I: "?I t'"
    then have d': "distinct (map fst (objects t'))" and md: "max_disappeared t' = ?md"
      by simp_all
    show "mark_disappeared now t' x = ?g t' x \<and> ?I (?g t' x)"
      unfolding mark_disappeared_char [OF d'] md using I by (simp add: keys_upd_entry)
  qed
  then have "foldl (mark_disappeared now) t ks = foldl ?g t ks" by simp
  also have "\<dots> = t\<lparr>objects := map (\<lambda>(k', v). (k', if k' \<in> set ks
                 then disappear ?md now v else v)) (objects t)\<rparr>"
    by (rule foldl_upd_keys [OF dk])
  finally show ?thesis .
qed

lemma nth_inj_distinct:
  "distinct xs \<Longrightarrow> i < length xs \<Longrightarrow> j < length xs \<Longrightarrow> (xs ! i = xs ! j) = (i = j)"
  by (auto simp: nth_eq_iff_index_eq)

lemma map_of_matches_Some:
  "map_of (map (\<lambda>(row, col). (ids ! row, col)) tr) k = Some c \<Longrightarrow>
   \<exists>row. (row, c) \<in> set tr \<and> k = ids ! row"
  by (auto dest!: map_of_SomeD)

lemma map_of_matches_None:
  "map_of (map (\<lambda>(row, col). (ids ! row, col)) tr) k = None \<Longrightarrow> (row, c) \<in> set tr \<Longrightarrow>
   k \<noteq> ids ! row"
  by (force simp: map_of_eq_None_iff)

lemma distinct_map_nth:
  assumes "distinct xs" "distinct js" "set js \<subseteq> {0..<length xs}"
  shows "distinct (map ((!) xs) js)"
proof -
  have "inj_on ((!) xs) (set js)"
  proof (rule inj_onI)
    fix i j assume "i \<in> set js" "j \<in> set js" "xs ! i = xs ! j"
    then show "i = j" using assms(1,3) by (simp add: nth_eq_iff_index_eq subset_iff)
  qed
  then show ?thesis using assms(2) by (simp add: distinct_map)
qed

lemma update_nonempty_char:
  fixes t :: CentroidTracker
  assumes inv: "tracker_inv t" and ne: "detections \<noteq> []" and act: "active_objects t cam \<noteq> []"
  shows "update t detections cam now =
     t\<lparr>next_object_id := next_object_id t + int (length (unmatched_cols t detections cam)),
       objects := map (\<lambda>(k, v). (k, updated_person t detections cam now k v)) (objects t) @
                  registered (next_object_id t) detections cam now
                    (unmatched_cols t detections cam)\<rparr>"
proof -
  define ids where "ids = map fst (active_objects t cam)"
  define D where "D = update_matrix t detections cam"
  define rows where "rows = argsort (map min_list D)"
  define cols where "cols = map (\<lambda>row. argmin (D ! row)) rows"
  define tr where "tr = match_trace (max_distance t) D (zip rows cols) {} {}"
  define um where "um = map (\<lambda>(row, col). (ids ! row, col)) tr"
  have d: "distinct (map fst (objects t))" using inv by (simp add: tracker_inv_def)
  have dids: "distinct ids" unfolding ids_def by (rule active_ids_distinct [OF d])
  have lenD: "length D = length ids"
    by (simp add: D_def ids_def length_update_matrix)
  have um: "update_matches t detections cam = um"
    using ne act
    by (simp add: update_matches_def um_def tr_def cols_def rows_def D_def ids_def Let_def)
  have tr_rows: "fst ` set tr \<subseteq> {0..<length ids}"
  proof -
    have "fst ` set tr \<subseteq> fst ` set (zip rows cols)"
      unfolding tr_def using match_trace_rows [of "max_distance t" D "zip rows cols" "{}" "{}"]
      by auto
    also have "\<dots> \<subseteq> set rows" by (auto dest: set_zip_leftD)
    also have "\<dots> = {0..<length ids}" by (simp add: rows_def set_argsort lenD)
    finally show ?thesis .
  qed
  have dtr: "distinct (map fst tr)" unfolding tr_def by (rule match_trace_distinct_rows)
  have dk: "distinct (map (\<lambda>(row, col). ids ! row) tr)"
  proof -
    have e: "map (\<lambda>(row, col). ids ! row) tr = map ((!) ids) (map fst tr)"
      by (simp add: case_prod_unfold)
    have "distinct (map ((!) ids) (map fst tr))"
      using dtr tr_rows dids by (intro distinct_map_nth) auto
    then show ?thesis unfolding e .
  qed
  \<comment> \<open>the loop over the pairs\<close>
  define t1 where "t1 = t\<lparr>objects := map (\<lambda>(k, v). (k,
              case map_of um k of None \<Rightarrow> v | Some col \<Rightarrow> matched now (detections ! col) v))
              (objects t)\<rparr>"
  have loop1: "foldl (match_body D ids detections now) (t, {}, {}) (zip rows cols) =
               (t1, fst ` set tr, snd ` set tr)"
    unfolding match_loop_trace tr_def [symmetric] t1_def um_def
    by (simp add: assign_loop [OF d dk])
  have d1: "distinct (map fst (objects t1))"
    using d by (simp add: t1_def comp_def case_prod_unfold)
  \<comment> \<open>the loop over the unmatched rows\<close>
  define unused_rows where "unused_rows = filter (\<lambda>row. row \<notin> fst ` set tr) [0..<length D]"
  define missed where "missed = map ((!) ids) unused_rows"
  have dmissed: "distinct missed"
    unfolding missed_def unused_rows_def using dids
    by (intro distinct_map_nth) (auto simp: lenD)
  define t2 where "t2 = t1\<lparr>objects := map (\<lambda>(k', v). (k', if k' \<in> set missed
                 then disappear (max_disappeared t) now v else v)) (objects t1)\<rparr>"
  have md1: "max_disappeared t1 = max_disappeared t" by (simp add: t1_def)
  have loop2: "foldl (\<lambda>t' row. mark_disappeared now t' (ids ! row)) t1 unused_rows = t2"
  proof -
    have "foldl (\<lambda>t' row. mark_disappeared now t' (ids ! row)) t1 unused_rows =
          foldl (mark_disappeared now) t1 missed"
      by (simp add: missed_def foldl_map)
    also have "\<dots> = t2"
      unfolding t2_def miss_loop [OF d1 dmissed] md1 ..
    finally show ?thesis .
  qed
  \<comment> \<open>both loops together\<close>
  have obj2: "objects t2 = map (\<lambda>(k, v). (k, updated_person t detections cam now k v)) (objects t)"
  proof -
    have "(case (case x of (k, v) \<Rightarrow> (k, case map_of um k of None \<Rightarrow> v
                        | Some col \<Rightarrow> matched now (detections ! col) v)) of
            (k', v) \<Rightarrow> (k', if k' \<in> set missed then disappear (max_disappeared t) now v else v)) =
          (case x of (k, v) \<Rightarrow> (k, updated_person t detections cam now k v))"
      if x: "x \<in> set (objects t)" for x
    proof -
      obtain k v where kv: "x = (k, v)" by (cases x)
      have inids: "(k \<in> set ids) = (is_active v \<and> camera_id v = cam)"
        unfolding ids_def using active_ids_iff [OF d] x kv by simp
      show ?thesis
      proof (cases "map_of um k")
        case (Some c)
        then obtain row where row: "(row, c) \<in> set tr" "k = ids ! row"
          unfolding um_def by (auto dest: map_of_matches_Some)
        then have r: "row < length ids" "row \<in> fst ` set tr"
          using tr_rows by force+
        have "k \<notin> set missed"
        proof
          assume "k \<in> set missed"
          then obtain r' where r': "r' < length ids" "r' \<notin> fst ` set tr" "k = ids ! r'"
            unfolding missed_def unused_rows_def lenD by auto
          then have "r' = row" using row(2) r(1) dids by (simp add: nth_inj_distinct)
          then show False using r' r by simp
        qed
        then show ?thesis using Some by (simp add: kv updated_person_def um)
      next
        case None
        show ?thesis
        proof (cases "is_active v \<and> camera_id v = cam")
          case True
          then have "k \<in> set ids" using inids by simp
          then obtain r where r: "r < length ids" "k = ids ! r"
            by (auto simp: in_set_conv_nth)
          have "r \<notin> fst ` set tr"
          proof
            assume "r \<in> fst ` set tr"
            then obtain c where "(r, c) \<in> set tr" by auto
            then show False using map_of_matches_None [of ids tr k r c] None r
              by (simp add: um_def)
          qed
          then have "k \<in> set missed"
            using r unfolding missed_def unused_rows_def lenD by auto
          then show ?thesis using None True by (simp add: kv updated_person_def um)
        next
          case False
          then have "k \<notin> set ids" using inids by simp
          then have "k \<notin> set missed"
            unfolding missed_def unused_rows_def lenD by auto
          then show ?thesis using None False by (auto simp: kv updated_person_def um)
        qed
      qed
    qed
    then show ?thesis
      unfolding t2_def t1_def by (simp add: comp_def cong: map_cong)
  qed
  have next2: "next_object_id t2 = next_object_id t" by (simp add: t2_def t1_def)
  have inv2: "tracker_inv t2"
  proof -
    have "tracking_id (updated_person t detections cam now k v) = tracking_id v" for k v
      by (simp add: updated_person_def matched_def disappear_def split: option.splits)
    then show ?thesis
      using inv unfolding tracker_inv_def obj2 next2
      by (auto simp: comp_def case_prod_unfold list_all_iff)
  qed
  have ucols: "filter (\<lambda>col. col \<notin> snd ` set tr) [0..<length detections] =
               unmatched_cols t detections cam"
  proof -
    have "snd ` set um = snd ` set tr" unfolding um_def by force
    then show ?thesis by (simp add: unmatched_cols_def um)
  qed
  have "update t detections cam now =
        foldl (\<lambda>t' col. register_det cam now t' (detections ! col)) t2
          (unmatched_cols t detections cam)"
    unfolding update_unfold [OF ne act] Let_def
      ids_def [symmetric] D_def [symmetric] rows_def [symmetric] cols_def [symmetric]
      loop1 prod.case unused_rows_def [symmetric] loop2 ucols ..
  also have "\<dots> = t2\<lparr>next_object_id := next_object_id t2 + int (length (unmatched_cols t detections cam)),
       objects := objects t2 @ registered (next_object_id t2) detections cam now
                    (unmatched_cols t detections cam)\<rparr>"
    by (rule register_loop [OF inv2])
  finally show ?thesis
    unfolding obj2 next2 by (simp add: t2_def t1_def)
qed

lemma update_char:
  fixes t :: CentroidTracker
  assumes inv: "tracker_inv t"
  shows "update t detections cam now =
     t\<lparr>next_object_id := next_object_id t + int (length (unmatched_cols t detections cam)),
       objects := map (\<lambda>(k, v). (k, updated_person t detections cam now k v)) (objects t) @
                  registered (next_object_id t) detections cam now
                    (unmatched_cols t detections cam)\<rparr>"
proof (cases "detections = []")
  case True
  have d: "distinct (map fst (objects t))" using inv by (simp add: tracker_inv_def)
  have um: "update_matches t [] cam = []" by (simp add: update_matches_def)
  have "updated_person t [] cam now k v =
        (if is_active v \<and> camera_id v = cam then disappear (max_disappeared t) now v else v)" for k v
    by (simp add: updated_person_def um)
  then show ?thesis
    using True by (simp add: update_empty [OF d] unmatched_cols_def)
next
  case ne: False
  show ?thesis
  proof (cases "active_objects t cam = []")
    case True
    have um: "update_matches t detections cam = []" using True by (simp add: update_matches_def)
    have "map (\<lambda>(k, v). (k, updated_person t detections cam now k v)) (objects t) =
          map (\<lambda>x. x) (objects t)"
    proof (rule map_cong [OF refl])
      fix x assume x: "x \<in> set (objects t)"
      obtain k v where kv: "x = (k, v)" by (cases x)
      have "\<not> (is_active v \<and> camera_id v = cam)"
      proof
        assume "is_active v \<and> camera_id v = cam"
        then have "(k, v) \<in> set (active_objects t cam)"
          using x kv by (simp add: active_objects_def)
        then show False using True by simp
      qed
      then show "(case x of (k, v) \<Rightarrow> (k, updated_person t detections cam now k v)) = x"
        by (auto simp: kv updated_person_def um)
    qed
    moreover have "update t detections cam now = foldl (register_det cam now) t detections"
      using ne True by (simp add: update_def)
    ultimately show ?thesis
      by (simp add: register_all [OF inv] unmatched_cols_def um)
  next
    case False
    then show ?thesis using ne by (intro update_nonempty_char [OF inv])
  qed
qed

lemma tracking_id_updated_person:
  "tracking_id (updated_person t detections cam now k v) = tracking_id v"
  by (simp add: updated_person_def matched_def disappear_def split: option.splits)

lemma tracker_inv_init: "tracker_inv (CentroidTracker_init md bound)"
  by (simp add: tracker_inv_def CentroidTracker_init_def)

lemma update_inv:
  assumes "tracker_inv t"
  shows "tracker_inv (update t detections cam now)"
proof -
  let ?news = "registered (next_object_id t) detections cam now (unmatched_cols t detections cam)"
  have d: "distinct (map fst (objects t))"
    and old: "\<And>k p. (k, p) \<in> set (objects t) \<Longrightarrow> tracking_id p = k \<and> k < next_object_id t"
    using assms by (auto simp: tracker_inv_def list_all_iff)
  have new: "\<And>k p. (k, p) \<in> set ?news \<Longrightarrow> next_object_id t \<le> k \<and>
      k < next_object_id t + int (length (unmatched_cols t detections cam)) \<and> tracking_id p = k"
    using registered_new by blast
  have dn: "distinct (map fst ?news)"
    by (simp add: registered_keys distinct_map inj_on_def)
  have disj: "set (map fst (objects t)) \<inter> set (map fst ?news) = {}"
    using old new by fastforce
  have keys: "map fst (map (\<lambda>(k, v). (k, updated_person t detections cam now k v)) (objects t)) =
              map fst (objects t)"
    by (simp add: comp_def case_prod_unfold)
  have 1: "distinct (map fst (objects (update t detections cam now)))"
    unfolding update_char [OF assms] using d dn disj by (simp add: keys del: map_map)
  have 2: "list_all (\<lambda>(k, p). tracking_id p = k \<and> k < next_object_id (update t detections cam now))
             (objects (update t detections cam now))"
    unfolding update_char [OF assms] list_all_iff
    using old new by (auto simp: tracking_id_updated_person) fastforce+
  show ?thesis unfolding tracker_inv_def using 1 2 by simp
qed

subsection \<open>Consequences for single persons\<close>

lemma map_of_map_keyed:
  "map_of (map (\<lambda>(k, v). (k, f k v)) d) k = map_option (f k) (map_of d k)"
  by (induction d) auto

lemma update_lookup_old:
  assumes "tracker_inv t" "map_of (objects t) k = Some p"
  shows "map_of (objects (update t detections cam now)) k =
         Some (updated_person t detections cam now k p)"
  unfolding update_char [OF assms(1)] using assms(2) by (simp add: map_of_map_keyed)

lemma update_lookup_new:
  assumes "tracker_inv t" "map_of (objects t) k = None"
  shows "map_of (objects (update t detections cam now)) k =
         map_of (registered (next_object_id t) detections cam now
                   (unmatched_cols t detections cam)) k"
  unfolding update_char [OF assms(1)] using assms(2)
  by (simp add: map_of_map_keyed map_add_def)

lemma update_matches_active:
  assumes "(k, c) \<in> set (update_matches t detections cam)"
  shows "k \<in> set (map fst (active_objects t cam))"
proof -
  define ids where "ids = map fst (active_objects t cam)"
  define D where "D = update_matrix t detections cam"
  define rows where "rows = argsort (map min_list D)"
  define cols where "cols = map (\<lambda>row. argmin (D ! row)) rows"
  define tr where "tr = match_trace (max_distance t) D (zip rows cols) {} {}"
  have ne: "\<not> (length detections = 0 \<or> length (active_objects t cam) = 0)"
    using assms by (auto simp: update_matches_def)
  then have um: "update_matches t detections cam = map (\<lambda>(row, col). (ids ! row, col)) tr"
    by (simp add: update_matches_def tr_def cols_def rows_def D_def ids_def Let_def)
  then obtain row where row: "(row, c) \<in> set tr" "k = ids ! row" using assms by auto
  have "fst ` set tr \<subseteq> fst ` set (zip rows cols)"
    unfolding tr_def using match_trace_rows [of "max_distance t" D "zip rows cols" "{}" "{}"]
    by auto
  also have "\<dots> \<subseteq> set rows" by (auto dest: set_zip_leftD)
  also have "\<dots> = {0..<length ids}"
    by (simp add: rows_def set_argsort D_def ids_def length_update_matrix)
  finally have "row < length ids" using row(1) by force
  then have "k \<in> set ids" using row(2) by (simp only: nth_mem)
  then show ?thesis by (simp only: ids_def)
qed

lemma inactive_not_matched:
  assumes "tracker_inv t" "map_of (objects t) k = Some p" "\<not> (is_active p \<and> camera_id p = cam)"
  shows "k \<notin> fst ` set (update_matches t detections cam)"
proof
  assume "k \<in> fst ` set (update_matches t detections cam)"
  then have "k \<in> set (map fst (active_objects t cam))"
    using update_matches_active by fastforce
  moreover have "distinct (map fst (objects t))" using assms(1) by (simp add: tracker_inv_def)
  ultimately show False
    using active_ids_iff [OF _ map_of_SomeD [OF assms(2)], of cam] assms(3) by simp
qed

lemma update_inactive_unchanged:
  assumes "tracker_inv t" "map_of (objects t) k = Some p" "\<not> is_active p"
  shows "map_of (objects (update t detections cam now)) k = Some p"
proof -
  have "k \<notin> fst ` set (update_matches t detections cam)"
    using assms by (intro inactive_not_matched) auto
  then have "map_of (update_matches t detections cam) k = None"
    by (simp add: map_of_eq_None_iff)
  then have "updated_person t detections cam now k p = p"
    using assms(3) by (simp add: updated_person_def)
  then show ?thesis using update_lookup_old [OF assms(1,2)] by simp
qed

lemma updates_inv: "tracker_inv t \<Longrightarrow> tracker_inv (updates t frames)"
  unfolding updates_def
  by (induction frames arbitrary: t) (auto simp: update_inv)

lemma updates_inactive_unchanged:
  assumes "tracker_inv t" "map_of (objects t) k = Some p" "\<not> is_active p"
  shows "map_of (objects (updates t frames)) k = Some p"
  using assms unfolding updates_def
proof (induction frames arbitrary: t)
  case Nil
  then show ?case by simp
next
  case (Cons f frames)
  obtain detections cam now where f: "f = (detections, cam, now)" by (cases f)
  have "tracker_inv (update t detections cam now)" using Cons.prems(1) by (rule update_inv)
  moreover have "map_of (objects (update t detections cam now)) k = Some p"
    using Cons.prems by (rule update_inactive_unchanged)
  ultimately show ?case using Cons.IH Cons.prems(3) by (simp add: f)
qed

lemma update_new_ids:
  assumes "tracker_inv t" "map_of (objects t) k = None"
    and "map_of (objects (update t detections cam now)) k = Some p"
  shows "next_object_id t \<le> k \<and> k < next_object_id (update t detections cam now) \<and>
         tracking_id p = k \<and> is_active p \<and> camera_id p = cam"
proof -
  have "(k, p) \<in> set (registered (next_object_id t) detections cam now
                   (unmatched_cols t detections cam))"
    using assms(3) unfolding update_lookup_new [OF assms(1,2)] by (rule map_of_SomeD)
  then show ?thesis
    using registered_new unfolding update_char [OF assms(1)] by fastforce
qed

lemma update_next_mono:
  "tracker_inv t \<Longrightarrow> next_object_id t \<le> next_object_id (update t detections cam now)"
  by (simp add: update_char)

lemma updates_next_mono:
  "tracker_inv t \<Longrightarrow> next_object_id t \<le> next_object_id (updates t frames)"
  unfolding updates_def
proof (induction frames arbitrary: t)
  case Nil
  then show ?case by simp
next
  case (Cons f frames)
  obtain detections cam now where f: "f = (detections, cam, now)" by (cases f)
  have "next_object_id (update t detections cam now) \<le>
        next_object_id (foldl (\<lambda>t' (detections, cam, now). update t' detections cam now)
           (update t detections cam now) frames)"
    using Cons.prems by (intro Cons.IH update_inv)
  then show ?case using update_next_mono [OF Cons.prems, of detections cam now] by (simp add: f)
qed

subsection \<open>Departure is final\<close>

lemma update_no_active:
  assumes "tracker_inv t" "active_objects t cam = []"
  shows "objects (update t detections cam now) =
         objects t @ registered (next_object_id t) detections cam now [0..<length detections]"
proof -
  have um: "update_matches t detections cam = []" using assms(2) by (simp add: update_matches_def)
  have "map (\<lambda>(k, v). (k, updated_person t detections cam now k v)) (objects t) =
        map (\<lambda>x. x) (objects t)"
  proof (rule map_cong [OF refl])
    fix x assume x: "x \<in> set (objects t)"
    obtain k v where kv: "x = (k, v)" by (cases x)
    have "\<not> (is_active v \<and> camera_id v = cam)"
    proof
      assume "is_active v \<and> camera_id v = cam"
      then have "(k, v) \<in> set (active_objects t cam)"
        using x kv by (simp add: active_objects_def)
      then show False using assms(2) by simp
    qed
    then show "(case x of (k, v) \<Rightarrow> (k, updated_person t detections cam now k v)) = x"
      by (auto simp: kv updated_person_def um)
  qed
  then show ?thesis
    unfolding update_char [OF assms(1)] by (simp add: unmatched_cols_def um)
qed

subsection \<open>An identity left unmatched\<close>




subsection \<open>Tracking ids across cameras\<close>

text \<open>
  Claim C2 fails on the code. \<^verbatim>\<open>get_tracker\<close> creates one tracker per camera, each
  counting from 1: the first person of camera 1 and the first person of camera 2 both
  get tracking id 1. The aggregate of \<^verbatim>\<open>TrackingManager.get_active_persons\<close>, a dict
  keyed by tracking id, then holds one of the two active persons, and of their two
  departures \<^verbatim>\<open>add_pending_alert\<close> keeps one alert.
\<close>

theorem tracking_ids_collide_across_cameras:
  "map (\<lambda>(cam, t). (cam, map (\<lambda>(k, p). (tracking_id p, camera_id p, is_active p)) (objects t)))
     (trackers two_camera_manager) =
     [(''cam1'', [(1, ''cam1'', True)]), (''cam2'', [(1, ''cam2'', True)])] \<and>
   map (\<lambda>(k, p). (k, camera_id p)) (fst (tm_get_active_persons two_camera_manager None)) =
     [(1, ''cam2'')] \<and>
   map (\<lambda>(k, a). (k, left_at a))
     (pending_alerts (foldl add_pending_alert (AlertManager_init None)
        (concat (map (\<lambda>(cam, t). map snd (objects t)) (trackers two_camera_manager))))) =
     [(1, 0)]"
  by code_simp

subsection \<open>Reported departures\<close>

text \<open>
  Claim C3 fails on the code. With \<^verbatim>\<open>TRACKING_MAX_DISAPPEARED = 30\<close>, the person seen at
  time 0 departs on the 31st empty frame and is returned by \<^verbatim>\<open>get_newly_left_persons\<close>
  after it, and again after the 32nd and after the 39th empty frame: its count stays at
  31, which is all the query tests.
\<close>

theorem newly_left_reported_again:
  "map tracking_id (fst (get_newly_left_persons
      (tm_feed_empty one_person_manager ''cam1'' (map int [1..<31])) ''cam1'')) = [] \<and>
   map tracking_id (fst (get_newly_left_persons
      (tm_feed_empty one_person_manager ''cam1'' (map int [1..<32])) ''cam1'')) = [1] \<and>
   map tracking_id (fst (get_newly_left_persons
      (tm_feed_empty one_person_manager ''cam1'' (map int [1..<33])) ''cam1'')) = [1] \<and>
   map tracking_id (fst (get_newly_left_persons
      (tm_feed_empty one_person_manager ''cam1'' (map int [1..<40])) ''cam1'')) = [1]"
  by code_simp

subsection \<open>The processing loop never cancels\<close>

lemma alert_kept_refl: "alert_kept a a"
  by (simp add: alert_kept_def)

lemma alert_kept_trans: "alert_kept a b \<Longrightarrow> alert_kept b c \<Longrightarrow> alert_kept a c"
  unfolding alert_kept_def
  by (metis Alert.surjective Alert.update_convs(6))

lemma add_pending_alert_keeps:
  assumes "map_of (pending_alerts am) tid = Some a"
  shows "map_of (pending_alerts (add_pending_alert am p)) tid = Some a"
  using assms by (auto simp: add_pending_alert_def Let_def map_of_dict_set)

lemma add_pending_alerts_keep:
  "map_of (pending_alerts am) tid = Some a \<Longrightarrow>
   map_of (pending_alerts (foldl add_pending_alert am ps)) tid = Some a"
  by (induction ps arbitrary: am) (auto simp: add_pending_alert_keeps)

lemma trigger_alert_keeps:
  assumes "map_of (pending_alerts am) tid = Some a"
  shows "\<exists>a'. map_of (pending_alerts (trigger_alert am k)) tid = Some a' \<and> alert_kept a a'"
proof (cases "map_of (pending_alerts am) k")
  case None
  then show ?thesis using assms by (auto simp: trigger_alert_def alert_kept_refl)
next
  case (Some b)
  show ?thesis
  proof (cases "k = tid")
    case True
    then have "map_of (pending_alerts (trigger_alert am k)) tid = Some (a\<lparr>triggered := True\<rparr>)"
      using assms by (simp add: trigger_alert_def map_of_dict_set)
    moreover have "alert_kept a (a\<lparr>triggered := True\<rparr>)" by (simp add: alert_kept_def)
    ultimately show ?thesis by blast
  next
    case False
    then have "map_of (pending_alerts (trigger_alert am k)) tid = Some a"
      using assms Some by (simp add: trigger_alert_def map_of_dict_set)
    then show ?thesis using alert_kept_refl by blast
  qed
qed

lemma trigger_alerts_keep:
  "map_of (pending_alerts am) tid = Some a \<Longrightarrow>
   \<exists>a'. map_of (pending_alerts (foldl trigger_alert am ks)) tid = Some a' \<and> alert_kept a a'"
proof (induction ks arbitrary: am a)
  case Nil
  then show ?case using alert_kept_refl by auto
next
  case (Cons k ks)
  obtain b where b: "map_of (pending_alerts (trigger_alert am k)) tid = Some b" "alert_kept a b"
    using trigger_alert_keeps [OF Cons.prems] by blast
  obtain c where "map_of (pending_alerts (foldl trigger_alert (trigger_alert am k) ks)) tid = Some c"
    "alert_kept b c"
    using Cons.IH [OF b(1)] by blast
  then show ?case using b(2) alert_kept_trans by auto
qed

lemma check_alerts_keeps:
  "map_of (pending_alerts am) tid = Some a \<Longrightarrow>
   \<exists>a'. map_of (pending_alerts (check_alerts am now)) tid = Some a' \<and> alert_kept a a'"
  unfolding check_alerts_def Let_def by (rule trigger_alerts_keep)

lemma system_step_keeps:
  assumes "map_of (pending_alerts (sys_alerts s)) tid = Some a"
  shows "\<exists>a'. map_of (pending_alerts (sys_alerts (system_step s st))) tid = Some a' \<and>
              alert_kept a a'"
proof (cases st)
  case (CameraFrame cam detections fr now completed)
  have "map_of (pending_alerts (sys_alerts (process_frame s cam detections fr now completed))) tid =
        Some a"
    using assms
    by (simp add: process_frame_def Let_def case_prod_unfold add_pending_alerts_keep)
  then show ?thesis using CameraFrame alert_kept_refl by auto
next
  case (AlertCheck now)
  then show ?thesis using check_alerts_keeps [OF assms] by simp
qed

text \<open>
  Claim C10. In every run of the system, made of passes of the processing loop (complete
  or cut short by an exception) and of evaluator checks in any order, a pending alert is
  never removed: it stays under its tracking id with the same data, except that the
  evaluator may have set \<open>triggered\<close>. No step of the run calls \<^verbatim>\<open>cancel_alert\<close>.
\<close>

theorem pipeline_never_cancels:
  assumes "map_of (pending_alerts (sys_alerts s)) tid = Some a"
  shows "\<exists>a'. map_of (pending_alerts (sys_alerts (run s steps))) tid = Some a' \<and> alert_kept a a'"
  using assms unfolding run_def
proof (induction steps arbitrary: s a)
  case Nil
  then show ?case using alert_kept_refl by auto
next
  case (Cons st steps)
  obtain b where b: "map_of (pending_alerts (sys_alerts (system_step s st))) tid = Some b"
    "alert_kept a b"
    using system_step_keeps [OF Cons.prems] by blast
  obtain c where "map_of (pending_alerts (sys_alerts (foldl system_step (system_step s st) steps))) tid = Some c"
    "alert_kept b c"
    using Cons.IH [OF b(1)] by blast
  then show ?case using b(2) alert_kept_trans by auto
qed

theorem pipeline_never_cancels_witness:
  "map_of (pending_alerts (sys_alerts departed_system)) 1 = Some (Alert_init 1 ''Unknown'' 31 20) \<and>
   map_of (pending_alerts (sys_alerts (run departed_system
      [CameraFrame ''cam1'' [detection_at (125, 150)] (\<lambda>b. None) 32 None,
       AlertCheck 1300000000,
       CameraFrame ''cam1'' [detection_at (126, 151)] (\<lambda>b. None) 1300000001 (Some 0)]))) 1 =
     Some ((Alert_init 1 ''Unknown'' 31 20)\<lparr>triggered := True\<rparr>) \<and>
   alert_kept (Alert_init 1 ''Unknown'' 31 20) ((Alert_init 1 ''Unknown'' 31 20)\<lparr>triggered := True\<rparr>)"
proof -
  have l: "map_of (pending_alerts (sys_alerts departed_system)) 1 =
           Some (Alert_init 1 ''Unknown'' 31 20)" by code_simp
  have r: "map_of (pending_alerts (sys_alerts (run departed_system
      [CameraFrame ''cam1'' [detection_at (125, 150)] (\<lambda>b. None) 32 None,
       AlertCheck 1300000000,
       CameraFrame ''cam1'' [detection_at (126, 151)] (\<lambda>b. None) 1300000001 (Some 0)]))) 1 =
     Some ((Alert_init 1 ''Unknown'' 31 20)\<lparr>triggered := True\<rparr>)" by code_simp
  show ?thesis
    using pipeline_never_cancels [OF l, of
      "[CameraFrame ''cam1'' [detection_at (125, 150)] (\<lambda>b. None) 32 None,
       AlertCheck 1300000000,
       CameraFrame ''cam1'' [detection_at (126, 151)] (\<lambda>b. None) 1300000001 (Some 0)]"] l r
    by auto
qed

subsection \<open>The assignment made by one update\<close>

lemma index_of_props:
  "x \<in> set xs \<Longrightarrow>
   index_of x xs < length xs \<and> xs ! index_of x xs = x \<and> (\<forall>j < index_of x xs. xs ! j \<noteq> x)"
proof (induction xs)
  case Nil
  then show ?case by simp
next
  case (Cons y ys)
  show ?case
  proof (cases "y = x")
    case True
    then show ?thesis by simp
  next
    case False
    then have "x \<in> set ys" using Cons.prems by simp
    then have IH: "index_of x ys < length ys \<and> ys ! index_of x ys = x \<and>
                   (\<forall>j < index_of x ys. ys ! j \<noteq> x)" by (rule Cons.IH)
    have "(y # ys) ! j \<noteq> x" if "j < Suc (index_of x ys)" for j
      using that False IH by (cases j) auto
    then show ?thesis using False IH by simp
  qed
qed

lemma argmin_props:
  fixes xs :: "('a::linorder) list"
  assumes "xs \<noteq> []"
  shows "argmin xs < length xs" and "xs ! argmin xs = min_list xs"
    and "\<forall>j < length xs. min_list xs \<le> xs ! j"
    and "\<forall>j < argmin xs. min_list xs < xs ! j"
proof -
  have m: "min_list xs = Min (set xs)" using assms by (rule min_list_Min)
  then have mem: "min_list xs \<in> set xs" using assms by simp
  note ip = index_of_props [OF mem]
  show "argmin xs < length xs" "xs ! argmin xs = min_list xs"
    using ip by (simp_all add: argmin_def)
  show le: "\<forall>j < length xs. min_list xs \<le> xs ! j" using m by simp
  show "\<forall>j < argmin xs. min_list xs < xs ! j"
  proof (intro allI impI)
    fix j assume j: "j < argmin xs"
    then have "xs ! j \<noteq> min_list xs" using ip by (simp add: argmin_def)
    moreover have "j < length xs" using j \<open>argmin xs < length xs\<close> by simp
    ultimately show "min_list xs < xs ! j" using le by (simp add: less_le)
  qed
qed

lemma zip_map_self: "zip xs (map f xs) = map (\<lambda>x. (x, f x)) xs"
  by (induction xs) auto

lemma update_matrix_row:
  "r < length (active_objects t cam) \<Longrightarrow>
   length (update_matrix t detections cam ! r) = length detections"
  by (simp add: update_matrix_def cdist_def)

lemma update_matches_distinct:
  assumes "distinct (map fst (objects t))"
  shows "distinct (map fst (update_matches t detections cam))"
proof (cases "length detections = 0 \<or> length (active_objects t cam) = 0")
  case True
  then show ?thesis by (simp add: update_matches_def)
next
  case False
  define ids where "ids = map fst (active_objects t cam)"
  define D where "D = update_matrix t detections cam"
  define rows where "rows = argsort (map min_list D)"
  define cols where "cols = map (\<lambda>row. argmin (D ! row)) rows"
  define tr where "tr = match_trace (max_distance t) D (zip rows cols) {} {}"
  have um: "update_matches t detections cam = map (\<lambda>(row, col). (ids ! row, col)) tr"
    using False
    by (simp add: update_matches_def tr_def cols_def rows_def D_def ids_def Let_def)
  have dids: "distinct ids" unfolding ids_def by (rule active_ids_distinct [OF assms])
  have "fst ` set tr \<subseteq> fst ` set (zip rows cols)"
    unfolding tr_def using match_trace_rows [of "max_distance t" D "zip rows cols" "{}" "{}"]
    by auto
  also have "\<dots> \<subseteq> set rows" by (auto dest: set_zip_leftD)
  also have "\<dots> = {0..<length ids}"
    by (simp add: rows_def set_argsort D_def ids_def length_update_matrix)
  finally have sub: "set (map fst tr) \<subseteq> {0..<length ids}" by simp
  have dtr: "distinct (map fst tr)" unfolding tr_def by (rule match_trace_distinct_rows)
  have e: "map fst (map (\<lambda>(row, col). (ids ! row, col)) tr) = map ((!) ids) (map fst tr)"
    by (simp add: case_prod_unfold comp_def)
  show ?thesis unfolding um e using dids dtr sub by (rule distinct_map_nth)
qed

text \<open>
  The pairs of \<open>update_matches\<close> are the assignments \<^verbatim>\<open>update\<close> makes: the person of each
  pair ends the update with the data of the pair's detection.
\<close>

lemma update_applies_matches:
  assumes "tracker_inv t" and "(k, c) \<in> set (update_matches t detections cam)"
    and "map_of (objects t) k = Some p"
  shows "map_of (objects (update t detections cam now)) k =
         Some (p\<lparr>centroid := center (detections ! c), bbox := det_bbox (detections ! c),
                 confidence := det_confidence (detections ! c), disappeared_frames := 0,
                 last_seen := now\<rparr>)"
proof -
  have d: "distinct (map fst (objects t))" using assms(1) by (simp add: tracker_inv_def)
  have "map_of (update_matches t detections cam) k = Some c"
    using update_matches_distinct [OF d] assms(2) by simp
  then have "updated_person t detections cam now k p = matched now (detections ! c) p"
    by (simp add: updated_person_def)
  then show ?thesis
    using update_lookup_old [OF assms(1,3), of detections cam now] by (simp add: matched_def)
qed

subsection \<open>Distances and squared distances\<close>

lemma sq_dist_nonneg: "0 \<le> sq_dist p q"
  by (simp add: sq_dist_def)

lemma euclidean_sq_dist: "euclidean p q = sqrt (real_of_int (sq_dist p q))"
  by (simp add: euclidean_def sq_dist_def)

lemma euclidean_le_iff: "(euclidean p q \<le> euclidean p' q') = (sq_dist p q \<le> sq_dist p' q')"
  by (simp add: euclidean_sq_dist)

lemma euclidean_less_iff: "(euclidean p q < euclidean p' q') = (sq_dist p q < sq_dist p' q')"
  by (simp add: euclidean_sq_dist)

lemma euclidean_eq_iff: "(euclidean p q = euclidean p' q') = (sq_dist p q = sq_dist p' q')"
  by (simp add: euclidean_sq_dist)

lemma euclidean_exceeds: "(euclidean p q > bound) = exceeds (sq_dist p q) bound"
proof (cases "bound < 0")
  case True
  have "0 \<le> euclidean p q" by (simp add: euclidean_sq_dist sq_dist_nonneg)
  then show ?thesis using True by (simp add: exceeds_def)
next
  case False
  then have b: "0 \<le> bound" by simp
  have "(sqrt (bound * bound) < sqrt (real_of_int (sq_dist p q))) =
        (bound * bound < real_of_int (sq_dist p q))"
    by (rule real_sqrt_less_iff)
  moreover have "sqrt (bound * bound) = bound" using b by simp
  ultimately show ?thesis using False by (simp add: exceeds_def euclidean_sq_dist)
qed

subsection \<open>The reference assignment needs no more rounds than rows\<close>

lemma first_smallest_mem: "first_smallest D best ps \<in> set (best # ps)"
  by (induction ps arbitrary: best) (auto split: if_splits)

lemma unused_pairs_mem:
  "(r, c) \<in> set (unused_pairs D n_cols ur uc) \<Longrightarrow> r < length D \<and> r \<notin> ur"
  by (auto simp: unused_pairs_def)

lemma unused_pairs_none:
  "{0..<length D} \<subseteq> ur \<Longrightarrow> unused_pairs D n_cols ur uc = []"
proof -
  assume "{0..<length D} \<subseteq> ur"
  then have "filter (\<lambda>row. row \<notin> ur) [0..<length D] = []"
    by (auto simp: filter_empty_conv)
  then show ?thesis by (simp add: unused_pairs_def)
qed

lemma greedy_rounds_enough:
  "card ({0..<length D} - ur) \<le> n \<Longrightarrow>
   greedy_rounds (n + k) bound D n_cols ur uc = greedy_rounds n bound D n_cols ur uc"
proof (induction n arbitrary: ur uc)
  case 0
  then have "{0..<length D} \<subseteq> ur" by auto
  then have "unused_pairs D n_cols ur uc = []" by (rule unused_pairs_none)
  then show ?case by (cases k) simp_all
next
  case (Suc n)
  show ?case
  proof (cases "unused_pairs D n_cols ur uc")
    case Nil
    then show ?thesis by simp
  next
    case (Cons p ps)
    obtain row col where rc: "first_smallest D p ps = (row, col)"
      by (cases "first_smallest D p ps")
    have "(row, col) \<in> set (unused_pairs D n_cols ur uc)"
      using first_smallest_mem [of D p ps] rc Cons by simp
    then have row: "row < length D" "row \<notin> ur" using unused_pairs_mem by auto
    have "{0..<length D} - insert row ur = ({0..<length D} - ur) - {row}" by auto
    moreover have "row \<in> {0..<length D} - ur" using row by simp
    ultimately have "card ({0..<length D} - insert row ur) = card ({0..<length D} - ur) - 1"
      by simp
    then have "card ({0..<length D} - insert row ur) \<le> n" using Suc.prems by simp
    then have "greedy_rounds (n + k) bound D n_cols (insert row ur) (insert col uc) =
               greedy_rounds n bound D n_cols (insert row ur) (insert col uc)"
      by (rule Suc.IH)
    then show ?thesis using Cons rc by simp
  qed
qed

lemma reference_rounds_enough:
  "greedy_rounds (length D + k) bound D n_cols {} {} = greedy_rounds (length D) bound D n_cols {} {}"
  by (rule greedy_rounds_enough) simp

subsection \<open>A departed person stays reported\<close>

lemma update_max_disappeared:
  "tracker_inv t \<Longrightarrow> max_disappeared (update t detections cam now) = max_disappeared t"
  by (simp add: update_char)

lemma updates_max_disappeared:
  "tracker_inv t \<Longrightarrow> max_disappeared (updates t frames) = max_disappeared t"
  unfolding updates_def
proof (induction frames arbitrary: t)
  case Nil
  then show ?case by simp
next
  case (Cons f frames)
  obtain detections cam now where f: "f = (detections, cam, now)" by (cases f)
  have "tracker_inv (update t detections cam now)" using Cons.prems by (rule update_inv)
  then show ?case
    using Cons.IH [of "update t detections cam now"] update_max_disappeared [OF Cons.prems]
    by (simp add: f)
qed

text \<open>
  In general: a person that satisfies the test of \<^verbatim>\<open>get_newly_left_persons\<close> satisfies it
  after every later sequence of updates of its tracker.
\<close>

lemma newly_left_persists:
  assumes "tracker_inv t" and "map_of (objects t) k = Some p" and "\<not> is_active p"
    and "disappeared_frames p = max_disappeared t + 1"
  shows "map_of (objects (updates t frames)) k = Some p \<and>
         disappeared_frames p = max_disappeared (updates t frames) + 1"
  using updates_inactive_unchanged [OF assms(1,2,3)] updates_max_disappeared [OF assms(1)]
    assms(4) by simp

subsection \<open>The matching loop with the library calls left open\<close>

lemma match_trace_with_rows:
  "fst ` set (match_trace_with bound D rcs ur uc) \<subseteq> fst ` set rcs - ur"
  by (induction bound D rcs ur uc rule: match_trace_with.induct) (auto split: if_splits)

lemma match_trace_with_cols:
  "snd ` set (match_trace_with bound D rcs ur uc) \<subseteq> snd ` set rcs - uc"
  by (induction bound D rcs ur uc rule: match_trace_with.induct) (auto split: if_splits)

lemma match_trace_with_distinct_rows:
  "distinct (map fst (match_trace_with bound D rcs ur uc))"
proof (induction bound D rcs ur uc rule: match_trace_with.induct)
  case (1 bound D ur uc)
  then show ?case by simp
next
  case (2 bound D row col rest ur uc)
  have "row \<notin> fst ` set (match_trace_with bound D rest (insert row ur) (insert col uc))"
    using match_trace_with_rows [of bound D rest "insert row ur" "insert col uc"] by auto
  then show ?case using 2 by auto
qed

lemma match_trace_with_distinct_cols:
  "distinct (map snd (match_trace_with bound D rcs ur uc))"
proof (induction bound D rcs ur uc rule: match_trace_with.induct)
  case (1 bound D ur uc)
  then show ?case by simp
next
  case (2 bound D row col rest ur uc)
  have "col \<notin> snd ` set (match_trace_with bound D rest (insert row ur) (insert col uc))"
    using match_trace_with_cols [of bound D rest "insert row ur" "insert col uc"] by auto
  then show ?case using 2 by auto
qed

lemma match_loop_trace_with:
  "foldl (match_body_with D object_ids detections now) (t, ur, uc) rcs =
   (foldl (\<lambda>t' (row, col). t'\<lparr>objects := dict_modify (objects t') (object_ids ! row)
                                  (matched now (detections ! col))\<rparr>)
      t (match_trace_with (max_distance t) D rcs ur uc),
    ur \<union> fst ` set (match_trace_with (max_distance t) D rcs ur uc),
    uc \<union> snd ` set (match_trace_with (max_distance t) D rcs ur uc))"
proof (induction rcs arbitrary: t ur uc)
  case Nil
  then show ?case by simp
next
  case (Cons rc rcs)
  obtain row col where rc: "rc = (row, col)" by (cases rc)
  show ?case
  proof (cases "row \<in> ur \<or> col \<in> uc \<or> D ! row ! col > max_distance t")
    case True
    then have "match_body_with D object_ids detections now (t, ur, uc) rc = (t, ur, uc)"
      by (auto simp: match_body_with_def rc)
    moreover have "match_trace_with (max_distance t) D (rc # rcs) ur uc =
                   match_trace_with (max_distance t) D rcs ur uc"
      using True by (auto simp: rc)
    ultimately show ?thesis using Cons.IH [of t ur uc] by simp
  next
    case False
    let ?t1 = "t\<lparr>objects := dict_modify (objects t) (object_ids ! row)
                                  (matched now (detections ! col))\<rparr>"
    have mt: "matched now (detections ! col) =
        (\<lambda>person. person\<lparr>centroid := center (detections ! col),
            bbox := det_bbox (detections ! col), confidence := det_confidence (detections ! col),
            disappeared_frames := 0, last_seen := now\<rparr>)"
      by (rule ext) (simp add: matched_def)
    have b: "match_body_with D object_ids detections now (t, ur, uc) rc =
             (?t1, insert row ur, insert col uc)"
      using False unfolding mt by (simp add: match_body_with_def rc Let_def)
    have tr: "match_trace_with (max_distance t) D (rc # rcs) ur uc =
              (row, col) # match_trace_with (max_distance t) D rcs (insert row ur) (insert col uc)"
      using False by (simp add: rc)
    have md: "max_distance ?t1 = max_distance t" by simp
    show ?thesis
      unfolding foldl_Cons b tr Cons.IH [of ?t1 "insert row ur" "insert col uc"] md
      by auto
  qed
qed

lemma match_trace_with_all_exceed:
  "\<forall>(r, c) \<in> set rcs. D ! r ! c > bound \<Longrightarrow> match_trace_with bound D rcs ur uc = []"
  by (induction bound D rcs ur uc rule: match_trace_with.induct) auto

text \<open>
  On rows taken in ascending order of the value at their proposed column, the loop
  assigns a row exactly when that value is within the bound and no earlier row proposed
  the same column.
\<close>

lemma match_trace_with_sorted:
  assumes "distinct rows" "set rows \<inter> ur = {}" "sorted (map (\<lambda>r. D ! r ! f r) rows)"
  shows "set (match_trace_with bound D (map (\<lambda>r. (r, f r)) rows) ur uc) =
         {(r, f r) | r. r \<in> set rows \<and> D ! r ! f r \<le> bound \<and> f r \<notin> uc \<and>
                        (\<forall>r' \<in> set (takeWhile (\<lambda>x. x \<noteq> r) rows). f r' \<noteq> f r)}"
  using assms
proof (induction rows arbitrary: ur uc)
  case Nil
  then show ?case by simp
next
  case (Cons r0 rows)
  have r0: "r0 \<notin> ur" "r0 \<notin> set rows" and d: "distinct rows" using Cons.prems by auto
  have srt: "sorted (map (\<lambda>r. D ! r ! f r) rows)"
    and ge: "\<forall>r \<in> set rows. D ! r0 ! f r0 \<le> D ! r ! f r"
    using Cons.prems(3) by auto
  have key: "(\<forall>r' \<in> set (takeWhile (\<lambda>x. x \<noteq> r) (r0 # rows)). f r' \<noteq> f r) =
             (r = r0 \<or> (f r0 \<noteq> f r \<and> (\<forall>r' \<in> set (takeWhile (\<lambda>x. x \<noteq> r) rows). f r' \<noteq> f r)))"
    for r by auto
  let ?S = "\<lambda>rs uc. {(r, f r) | r. r \<in> set rs \<and> D ! r ! f r \<le> bound \<and> f r \<notin> uc \<and>
                        (\<forall>r' \<in> set (takeWhile (\<lambda>x. x \<noteq> r) rs). f r' \<noteq> f r)}"
  show ?case
  proof (cases "f r0 \<in> uc")
    case True
    have tr: "match_trace_with bound D (map (\<lambda>r. (r, f r)) (r0 # rows)) ur uc =
              match_trace_with bound D (map (\<lambda>r. (r, f r)) rows) ur uc"
      using True by simp
    have IH: "set (match_trace_with bound D (map (\<lambda>r. (r, f r)) rows) ur uc) = ?S rows uc"
      using Cons.prems d srt by (intro Cons.IH) auto
    have "?S (r0 # rows) uc = ?S rows uc"
      unfolding key using True r0 by auto
    then show ?thesis by (simp only: tr IH)
  next
    case nuc: False
    show ?thesis
    proof (cases "D ! r0 ! f r0 > bound")
      case True
      have "\<forall>(r, c) \<in> set (map (\<lambda>r. (r, f r)) rows). D ! r ! c > bound"
        using ge True by fastforce
      then have e: "match_trace_with bound D (map (\<lambda>r. (r, f r)) rows) ur uc = []"
        by (rule match_trace_with_all_exceed)
      have tr: "match_trace_with bound D (map (\<lambda>r. (r, f r)) (r0 # rows)) ur uc = []"
        using True e by simp
      have "?S (r0 # rows) uc = {}"
        unfolding key using True ge by fastforce
      then show ?thesis by (simp only: tr list.set)
    next
      case False
      have tr: "match_trace_with bound D (map (\<lambda>r. (r, f r)) (r0 # rows)) ur uc =
                (r0, f r0) # match_trace_with bound D (map (\<lambda>r. (r, f r)) rows)
                               (insert r0 ur) (insert (f r0) uc)"
        using False nuc r0 by simp
      have IH: "set (match_trace_with bound D (map (\<lambda>r. (r, f r)) rows) (insert r0 ur) (insert (f r0) uc)) =
                ?S rows (insert (f r0) uc)"
        using Cons.prems d srt r0 by (intro Cons.IH) auto
      have "?S (r0 # rows) uc = insert (r0, f r0) (?S rows (insert (f r0) uc))"
        unfolding key using False nuc r0 by auto
      then show ?thesis by (simp only: tr list.set IH)
    qed
  qed
qed

subsection \<open>One update with the library calls left open, as a whole\<close>

lemma set_iter_empty:
  assumes "set_iter_spec set_iter"
  shows "set_iter {} = []"
proof -
  have "set (set_iter {}) = {}" using assms unfolding set_iter_spec_def by blast
  then show ?thesis by simp
qed

lemma length_matrix_with:
  "length (matrix_with metric t detections cam) = length (active_objects t cam)"
  by (simp add: matrix_with_def cdist_with_def)

lemma matrix_with_row:
  "r < length (active_objects t cam) \<Longrightarrow>
   length (matrix_with metric t detections cam ! r) = length detections"
  by (simp add: matrix_with_def cdist_with_def)

lemma update_with_unfold:
  assumes "detections \<noteq> []" "active_objects t cam \<noteq> []"
  shows "update_with metric np_argsort rows_iter cols_iter t detections cam now =
    (let object_ids = map fst (active_objects t cam);
         D = matrix_with metric t detections cam;
         rows = np_argsort (map min_list D);
         cols = map (\<lambda>row. argmin (D ! row)) rows;
         (t1, used_rows, used_cols) =
            foldl (match_body_with D object_ids detections now) (t, {}, {}) (zip rows cols);
         unused_rows = rows_iter ({0..<length D} - used_rows);
         t2 = foldl (\<lambda>t' row. mark_disappeared now t' (object_ids ! row)) t1 unused_rows;
         unused_cols = cols_iter ({0..<length detections} - used_cols)
     in foldl (\<lambda>t' col. register_det cam now t' (detections ! col)) t2 unused_cols)"
  using assms by (simp add: update_with_def matrix_with_def Let_def)

lemma update_with_nonempty_char:
  fixes t :: CentroidTracker
  assumes srt: "argsort_spec np_argsort" and it: "set_iter_spec cols_iter"
    and inv: "tracker_inv t" and ne: "detections \<noteq> []" and act: "active_objects t cam \<noteq> []"
    and rit: "set_iter_spec rows_iter"
  shows "update_with metric np_argsort rows_iter cols_iter t detections cam now =
     t\<lparr>next_object_id := next_object_id t +
          int (length (new_cols_with cols_iter t detections cam
                         (matches_with metric np_argsort t detections cam))),
       objects := map (\<lambda>(k, v). (k, person_after (matches_with metric np_argsort t detections cam)
                                      (max_disappeared t) detections cam now k v)) (objects t) @
                  registered (next_object_id t) detections cam now
                    (new_cols_with cols_iter t detections cam
                       (matches_with metric np_argsort t detections cam))\<rparr>"
proof -
  define ids where "ids = map fst (active_objects t cam)"
  define D where "D = matrix_with metric t detections cam"
  define rows where "rows = np_argsort (map min_list D)"
  define cols where "cols = map (\<lambda>row. argmin (D ! row)) rows"
  define tr where "tr = match_trace_with (max_distance t) D (zip rows cols) {} {}"
  define um where "um = map (\<lambda>(row, col). (ids ! row, col)) tr"
  have d: "distinct (map fst (objects t))" using inv by (simp add: tracker_inv_def)
  have dids: "distinct ids" unfolding ids_def by (rule active_ids_distinct [OF d])
  have lenD: "length D = length ids"
    by (simp add: D_def ids_def length_matrix_with)
  have um: "matches_with metric np_argsort t detections cam = um"
    using ne act
    by (simp add: matches_with_def um_def tr_def cols_def rows_def D_def ids_def Let_def)
  have setrows: "set rows = {0..<length ids}"
    using srt by (simp add: rows_def argsort_spec_def lenD)
  have tr_rows: "fst ` set tr \<subseteq> {0..<length ids}"
  proof -
    have "fst ` set tr \<subseteq> fst ` set (zip rows cols)"
      unfolding tr_def
      using match_trace_with_rows [of "max_distance t" D "zip rows cols" "{}" "{}"] by auto
    also have "\<dots> \<subseteq> set rows" by (auto dest: set_zip_leftD)
    finally show ?thesis unfolding setrows .
  qed
  have dtr: "distinct (map fst tr)" unfolding tr_def by (rule match_trace_with_distinct_rows)
  have dk: "distinct (map (\<lambda>(row, col). ids ! row) tr)"
  proof -
    have e: "map (\<lambda>(row, col). ids ! row) tr = map ((!) ids) (map fst tr)"
      by (simp add: case_prod_unfold)
    have "distinct (map ((!) ids) (map fst tr))"
      using dtr tr_rows dids by (intro distinct_map_nth) auto
    then show ?thesis unfolding e .
  qed
  \<comment> \<open>the loop over the pairs\<close>
  define t1 where "t1 = t\<lparr>objects := map (\<lambda>(k, v). (k,
              case map_of um k of None \<Rightarrow> v | Some col \<Rightarrow> matched now (detections ! col) v))
              (objects t)\<rparr>"
  have loop1: "foldl (match_body_with D ids detections now) (t, {}, {}) (zip rows cols) =
               (t1, fst ` set tr, snd ` set tr)"
    unfolding match_loop_trace_with tr_def [symmetric] t1_def um_def
    by (simp add: assign_loop [OF d dk])
  have d1: "distinct (map fst (objects t1))"
    using d by (simp add: t1_def comp_def case_prod_unfold)
  \<comment> \<open>the loop over the unmatched rows\<close>
  define unused_rows where "unused_rows = rows_iter ({0..<length D} - fst ` set tr)"
  have ur: "distinct unused_rows" "set unused_rows = {0..<length ids} - fst ` set tr"
    using rit by (simp_all add: unused_rows_def set_iter_spec_def lenD)
  define missed where "missed = map ((!) ids) unused_rows"
  have dmissed: "distinct missed"
    unfolding missed_def using dids ur by (intro distinct_map_nth) auto
  have inmissed: "(k \<in> set missed) = (\<exists>r. r < length ids \<and> r \<notin> fst ` set tr \<and> k = ids ! r)" for k
    unfolding missed_def using ur(2) by auto
  define t2 where "t2 = t1\<lparr>objects := map (\<lambda>(k', v). (k', if k' \<in> set missed
                 then disappear (max_disappeared t) now v else v)) (objects t1)\<rparr>"
  have md1: "max_disappeared t1 = max_disappeared t" by (simp add: t1_def)
  have loop2: "foldl (\<lambda>t' row. mark_disappeared now t' (ids ! row)) t1 unused_rows = t2"
  proof -
    have "foldl (\<lambda>t' row. mark_disappeared now t' (ids ! row)) t1 unused_rows =
          foldl (mark_disappeared now) t1 missed"
      by (simp add: missed_def foldl_map)
    also have "\<dots> = t2"
      unfolding t2_def miss_loop [OF d1 dmissed] md1 ..
    finally show ?thesis .
  qed
  \<comment> \<open>both loops together\<close>
  have obj2: "objects t2 = map (\<lambda>(k, v). (k, person_after um (max_disappeared t) detections cam now k v))
                             (objects t)"
  proof -
    have "(case (case x of (k, v) \<Rightarrow> (k, case map_of um k of None \<Rightarrow> v
                        | Some col \<Rightarrow> matched now (detections ! col) v)) of
            (k', v) \<Rightarrow> (k', if k' \<in> set missed then disappear (max_disappeared t) now v else v)) =
          (case x of (k, v) \<Rightarrow> (k, person_after um (max_disappeared t) detections cam now k v))"
      if x: "x \<in> set (objects t)" for x
    proof -
      obtain k v where kv: "x = (k, v)" by (cases x)
      have inids: "(k \<in> set ids) = (is_active v \<and> camera_id v = cam)"
        unfolding ids_def using active_ids_iff [OF d] x kv by simp
      show ?thesis
      proof (cases "map_of um k")
        case (Some c)
        then obtain row where row: "(row, c) \<in> set tr" "k = ids ! row"
          unfolding um_def by (auto dest: map_of_matches_Some)
        then have r: "row < length ids" "row \<in> fst ` set tr"
          using tr_rows by force+
        have "k \<notin> set missed"
        proof
          assume "k \<in> set missed"
          then obtain r' where r': "r' < length ids" "r' \<notin> fst ` set tr" "k = ids ! r'"
            unfolding inmissed by auto
          then have "r' = row" using row(2) r(1) dids by (simp add: nth_inj_distinct)
          then show False using r' r by simp
        qed
        then show ?thesis using Some by (simp add: kv person_after_def)
      next
        case None
        show ?thesis
        proof (cases "is_active v \<and> camera_id v = cam")
          case True
          then have "k \<in> set ids" using inids by simp
          then obtain r where r: "r < length ids" "k = ids ! r"
            by (auto simp: in_set_conv_nth)
          have "r \<notin> fst ` set tr"
          proof
            assume "r \<in> fst ` set tr"
            then obtain c where "(r, c) \<in> set tr" by auto
            then show False using map_of_matches_None [of ids tr k r c] None r
              by (simp add: um_def)
          qed
          then have "k \<in> set missed" unfolding inmissed using r by auto
          then show ?thesis using None True by (simp add: kv person_after_def)
        next
          case False
          then have "k \<notin> set ids" using inids by simp
          then have "k \<notin> set missed" unfolding inmissed by auto
          then show ?thesis using None False by (auto simp: kv person_after_def)
        qed
      qed
    qed
    then show ?thesis
      unfolding t2_def t1_def by (simp add: comp_def cong: map_cong)
  qed
  have next2: "next_object_id t2 = next_object_id t" by (simp add: t2_def t1_def)
  have inv2: "tracker_inv t2"
  proof -
    have "tracking_id (person_after um (max_disappeared t) detections cam now k v) = tracking_id v"
      for k v
      by (simp add: person_after_def matched_def disappear_def split: option.splits)
    then show ?thesis
      using inv unfolding tracker_inv_def obj2 next2
      by (auto simp: comp_def case_prod_unfold list_all_iff)
  qed
  have ucols: "cols_iter ({0..<length detections} - snd ` set tr) =
               new_cols_with cols_iter t detections cam um"
  proof -
    have "snd ` set um = snd ` set tr" unfolding um_def by force
    then show ?thesis using act by (simp add: new_cols_with_def)
  qed
  have "update_with metric np_argsort rows_iter cols_iter t detections cam now =
        foldl (\<lambda>t' col. register_det cam now t' (detections ! col)) t2
          (new_cols_with cols_iter t detections cam um)"
    unfolding update_with_unfold [OF ne act] Let_def
      ids_def [symmetric] D_def [symmetric] rows_def [symmetric] cols_def [symmetric]
      loop1 prod.case unused_rows_def [symmetric] loop2 ucols ..
  also have "\<dots> = t2\<lparr>next_object_id := next_object_id t2 +
         int (length (new_cols_with cols_iter t detections cam um)),
       objects := objects t2 @ registered (next_object_id t2) detections cam now
                    (new_cols_with cols_iter t detections cam um)\<rparr>"
    by (rule register_loop [OF inv2])
  finally show ?thesis
    unfolding obj2 next2 um by (simp add: t2_def t1_def)
qed

lemma update_with_char:
  fixes t :: CentroidTracker
  assumes srt: "argsort_spec np_argsort" and it: "set_iter_spec cols_iter" and inv: "tracker_inv t"
    and rit: "set_iter_spec rows_iter"
  shows "update_with metric np_argsort rows_iter cols_iter t detections cam now =
     t\<lparr>next_object_id := next_object_id t +
          int (length (new_cols_with cols_iter t detections cam
                         (matches_with metric np_argsort t detections cam))),
       objects := map (\<lambda>(k, v). (k, person_after (matches_with metric np_argsort t detections cam)
                                      (max_disappeared t) detections cam now k v)) (objects t) @
                  registered (next_object_id t) detections cam now
                    (new_cols_with cols_iter t detections cam
                       (matches_with metric np_argsort t detections cam))\<rparr>"
proof (cases "detections = []")
  case True
  have d: "distinct (map fst (objects t))" using inv by (simp add: tracker_inv_def)
  have um: "matches_with metric np_argsort t [] cam = []" by (simp add: matches_with_def)
  have nc: "new_cols_with cols_iter t [] cam [] = []"
    by (simp add: new_cols_with_def set_iter_empty [OF it])
  have "person_after [] (max_disappeared t) [] cam now k v =
        (if is_active v \<and> camera_id v = cam then disappear (max_disappeared t) now v else v)" for k v
    by (simp add: person_after_def)
  moreover have "update_with metric np_argsort rows_iter cols_iter t [] cam now = update t [] cam now"
    by (simp add: update_with_def update_def)
  ultimately show ?thesis
    using True by (simp add: update_empty [OF d] um nc)
next
  case ne: False
  show ?thesis
  proof (cases "active_objects t cam = []")
    case True
    have um: "matches_with metric np_argsort t detections cam = []"
      using True by (simp add: matches_with_def)
    have "map (\<lambda>(k, v). (k, person_after [] (max_disappeared t) detections cam now k v)) (objects t) =
          map (\<lambda>x. x) (objects t)"
    proof (rule map_cong [OF refl])
      fix x assume x: "x \<in> set (objects t)"
      obtain k v where kv: "x = (k, v)" by (cases x)
      have "\<not> (is_active v \<and> camera_id v = cam)"
      proof
        assume "is_active v \<and> camera_id v = cam"
        then have "(k, v) \<in> set (active_objects t cam)"
          using x kv by (simp add: active_objects_def)
        then show False using True by simp
      qed
      then show "(case x of (k, v) \<Rightarrow> (k, person_after [] (max_disappeared t) detections cam now k v)) = x"
        by (auto simp: kv person_after_def)
    qed
    moreover have "update_with metric np_argsort rows_iter cols_iter t detections cam now =
                   foldl (register_det cam now) t detections"
      using ne True by (simp add: update_with_def)
    ultimately show ?thesis
      using True by (simp add: register_all [OF inv] new_cols_with_def um)
  next
    case False
    then show ?thesis using ne by (intro update_with_nonempty_char [OF srt it inv _ _ rit])
  qed
qed

lemma tracking_id_person_after:
  "tracking_id (person_after M md detections cam now k v) = tracking_id v"
  by (simp add: person_after_def matched_def disappear_def split: option.splits)

lemma update_with_inv:
  assumes "argsort_spec np_argsort" "set_iter_spec cols_iter" "tracker_inv t"
    and "set_iter_spec rows_iter"
  shows "tracker_inv (update_with metric np_argsort rows_iter cols_iter t detections cam now)"
proof -
  let ?M = "matches_with metric np_argsort t detections cam"
  let ?cols = "new_cols_with cols_iter t detections cam ?M"
  let ?news = "registered (next_object_id t) detections cam now ?cols"
  have d: "distinct (map fst (objects t))"
    and old: "\<And>k p. (k, p) \<in> set (objects t) \<Longrightarrow> tracking_id p = k \<and> k < next_object_id t"
    using assms(3) by (auto simp: tracker_inv_def list_all_iff)
  have new: "\<And>k p. (k, p) \<in> set ?news \<Longrightarrow> next_object_id t \<le> k \<and>
      k < next_object_id t + int (length ?cols) \<and> tracking_id p = k"
    using registered_new by blast
  have dn: "distinct (map fst ?news)"
    by (simp add: registered_keys distinct_map inj_on_def)
  have disj: "set (map fst (objects t)) \<inter> set (map fst ?news) = {}"
    using old new by fastforce
  have keys: "map fst (map (\<lambda>(k, v). (k, person_after ?M (max_disappeared t) detections cam now k v))
                        (objects t)) = map fst (objects t)"
    by (simp add: comp_def case_prod_unfold)
  have 1: "distinct (map fst (objects (update_with metric np_argsort rows_iter cols_iter t detections cam now)))"
    unfolding update_with_char [OF assms] using d dn disj by (simp add: keys del: map_map)
  have 2: "list_all (\<lambda>(k, p). tracking_id p = k \<and>
               k < next_object_id (update_with metric np_argsort rows_iter cols_iter t detections cam now))
             (objects (update_with metric np_argsort rows_iter cols_iter t detections cam now))"
    unfolding update_with_char [OF assms] list_all_iff
    using old new by (auto simp: tracking_id_person_after) fastforce+
  show ?thesis unfolding tracker_inv_def using 1 2 by simp
qed

lemma matches_with_props:
  assumes srt: "argsort_spec np_argsort" and d: "distinct (map fst (objects t))"
  shows "distinct (map fst (matches_with metric np_argsort t detections cam))"
    and "distinct (map snd (matches_with metric np_argsort t detections cam))"
    and "fst ` set (matches_with metric np_argsort t detections cam) \<subseteq>
         set (map fst (active_objects t cam))"
    and "snd ` set (matches_with metric np_argsort t detections cam) \<subseteq> {0..<length detections}"
proof -
  let ?M = "matches_with metric np_argsort t detections cam"
  have "distinct (map fst ?M) \<and> distinct (map snd ?M) \<and>
        fst ` set ?M \<subseteq> set (map fst (active_objects t cam)) \<and>
        snd ` set ?M \<subseteq> {0..<length detections}"
  proof (cases "length detections = 0 \<or> length (active_objects t cam) = 0")
    case True
    then show ?thesis by (simp add: matches_with_def)
  next
    case False
    define ids where "ids = map fst (active_objects t cam)"
    define D where "D = matrix_with metric t detections cam"
    define rows where "rows = np_argsort (map min_list D)"
    define cols where "cols = map (\<lambda>row. argmin (D ! row)) rows"
    define tr where "tr = match_trace_with (max_distance t) D (zip rows cols) {} {}"
    have um: "?M = map (\<lambda>(row, col). (ids ! row, col)) tr"
      using False
      by (simp add: matches_with_def tr_def cols_def rows_def D_def ids_def Let_def)
    have dids: "distinct ids" unfolding ids_def by (rule active_ids_distinct [OF d])
    have lenD: "length D = length ids" by (simp add: D_def ids_def length_matrix_with)
    have setrows: "set rows = {0..<length ids}"
      using srt by (simp add: rows_def argsort_spec_def lenD)
    have "fst ` set tr \<subseteq> fst ` set (zip rows cols)"
      unfolding tr_def
      using match_trace_with_rows [of "max_distance t" D "zip rows cols" "{}" "{}"] by auto
    also have "\<dots> \<subseteq> set rows" by (auto dest: set_zip_leftD)
    finally have sub: "set (map fst tr) \<subseteq> {0..<length ids}" unfolding setrows by simp
    have dtr: "distinct (map fst tr)" unfolding tr_def by (rule match_trace_with_distinct_rows)
    have e: "map fst (map (\<lambda>(row, col). (ids ! row, col)) tr) = map ((!) ids) (map fst tr)"
      by (simp add: case_prod_unfold comp_def)
    have 1: "distinct (map fst ?M)" unfolding um e using dids dtr sub by (rule distinct_map_nth)
    have e2: "map snd (map (\<lambda>(row, col). (ids ! row, col)) tr) = map snd tr"
      by (simp add: case_prod_unfold comp_def)
    have "distinct (map snd tr)" unfolding tr_def by (rule match_trace_with_distinct_cols)
    then have 2: "distinct (map snd ?M)" by (simp only: um e2)
    have 3: "fst ` set ?M \<subseteq> set ids"
    proof
      fix k assume "k \<in> fst ` set ?M"
      then obtain r where "r \<in> set (map fst tr)" "k = ids ! r" unfolding um by force
      then show "k \<in> set ids" using sub by auto
    qed
    have 4: "snd ` set ?M \<subseteq> {0..<length detections}"
    proof
      fix c assume "c \<in> snd ` set ?M"
      then have "c \<in> snd ` set tr" unfolding um by force
      then have "c \<in> snd ` set (zip rows cols)"
        unfolding tr_def
        using match_trace_with_cols [of "max_distance t" D "zip rows cols" "{}" "{}"] by auto
      then have "c \<in> set cols" by (auto dest: set_zip_rightD)
      then obtain r where r: "r \<in> set rows" "c = argmin (D ! r)" unfolding cols_def by auto
      then have rl: "r < length (active_objects t cam)" using setrows by (simp add: ids_def)
      then have len: "length (D ! r) = length detections"
        unfolding D_def by (rule matrix_with_row)
      then have "D ! r \<noteq> []" using False by auto
      then show "c \<in> {0..<length detections}" using argmin_props(1) [of "D ! r"] r(2) len by simp
    qed
    show ?thesis using 1 2 3 4 by (simp add: ids_def)
  qed
  then show "distinct (map fst ?M)" "distinct (map snd ?M)"
    "fst ` set ?M \<subseteq> set (map fst (active_objects t cam))"
    "snd ` set ?M \<subseteq> {0..<length detections}" by simp_all
qed

subsection \<open>A stable sort and ascending iteration are admissible library calls\<close>

lemma euclidean_int: "sq_dist p q = d * d \<Longrightarrow> 0 \<le> d \<Longrightarrow> euclidean p q = real_of_int d"
  unfolding euclidean_sq_dist by (simp add: real_sqrt_mult)

lemma argsort_spec_argsort: "argsort_spec argsort"
  unfolding argsort_spec_def argsort_def
  by (auto simp: sorted_sort_key)

lemma set_iter_spec_sorted: "set_iter_spec sorted_list_of_set"
  unfolding set_iter_spec_def by simp

subsection \<open>Consequences for single persons, with the library calls left open\<close>

lemma update_with_lookup_old:
  assumes "argsort_spec np_argsort" "set_iter_spec cols_iter" "tracker_inv t"
    and "map_of (objects t) k = Some p" and "set_iter_spec rows_iter"
  shows "map_of (objects (update_with metric np_argsort rows_iter cols_iter t detections cam now)) k =
         Some (person_after (matches_with metric np_argsort t detections cam)
                 (max_disappeared t) detections cam now k p)"
  unfolding update_with_char [OF assms(1-3,5)] using assms(4) by (simp add: map_of_map_keyed)

lemma update_with_lookup_new:
  assumes "argsort_spec np_argsort" "set_iter_spec cols_iter" "tracker_inv t"
    and "map_of (objects t) k = None" and "set_iter_spec rows_iter"
  shows "map_of (objects (update_with metric np_argsort rows_iter cols_iter t detections cam now)) k =
         map_of (registered (next_object_id t) detections cam now
                   (new_cols_with cols_iter t detections cam
                      (matches_with metric np_argsort t detections cam))) k"
  unfolding update_with_char [OF assms(1-3,5)] using assms(4)
  by (simp add: map_of_map_keyed map_add_def)

lemma inactive_not_matched_with:
  assumes "argsort_spec np_argsort" "tracker_inv t" "map_of (objects t) k = Some p"
    and "\<not> (is_active p \<and> camera_id p = cam)"
  shows "k \<notin> fst ` set (matches_with metric np_argsort t detections cam)"
proof
  have d: "distinct (map fst (objects t))" using assms(2) by (simp add: tracker_inv_def)
  assume "k \<in> fst ` set (matches_with metric np_argsort t detections cam)"
  then have "k \<in> set (map fst (active_objects t cam))"
    using matches_with_props(3) [OF assms(1) d, of metric detections cam] by blast
  then show False
    using active_ids_iff [OF d map_of_SomeD [OF assms(3)], of cam] assms(4) by simp
qed

lemma update_with_inactive_unchanged:
  assumes "argsort_spec np_argsort" "set_iter_spec cols_iter" "tracker_inv t"
    and "map_of (objects t) k = Some p" "\<not> is_active p" and "set_iter_spec rows_iter"
  shows "map_of (objects (update_with metric np_argsort rows_iter cols_iter t detections cam now)) k =
         Some p"
proof -
  have "k \<notin> fst ` set (matches_with metric np_argsort t detections cam)"
    using assms(1,3,4) by (rule inactive_not_matched_with) (simp add: assms(5))
  then have "map_of (matches_with metric np_argsort t detections cam) k = None"
    by (simp add: map_of_eq_None_iff)
  then have "person_after (matches_with metric np_argsort t detections cam)
                 (max_disappeared t) detections cam now k p = p"
    using assms(5) by (simp add: person_after_def)
  then show ?thesis using update_with_lookup_old [OF assms(1-4,6)] by simp
qed

lemma updates_with_inv:
  "calls_ok calls \<Longrightarrow> tracker_inv t \<Longrightarrow> tracker_inv (updates_with t calls)"
  unfolding updates_with_def calls_ok_def
proof (induction calls arbitrary: t)
  case Nil
  then show ?case by simp
next
  case (Cons c calls)
  obtain metric np_argsort rows_iter cols_iter detections cam now
    where c: "c = (metric, np_argsort, rows_iter, cols_iter, detections, cam, now)"
    by (cases c)
  have ok: "argsort_spec np_argsort" "set_iter_spec rows_iter" "set_iter_spec cols_iter"
    using Cons.prems(1) by (simp_all add: c)
  have "tracker_inv (update_with metric np_argsort rows_iter cols_iter t detections cam now)"
    using ok(1,3) Cons.prems(2) ok(2) by (rule update_with_inv)
  then show ?case using Cons.IH Cons.prems(1) by (simp add: c)
qed

lemma updates_with_inactive_unchanged:
  assumes "calls_ok calls" "tracker_inv t" "map_of (objects t) k = Some p" "\<not> is_active p"
  shows "map_of (objects (updates_with t calls)) k = Some p"
  using assms unfolding updates_with_def calls_ok_def
proof (induction calls arbitrary: t)
  case Nil
  then show ?case by simp
next
  case (Cons c calls)
  obtain metric np_argsort rows_iter cols_iter detections cam now
    where c: "c = (metric, np_argsort, rows_iter, cols_iter, detections, cam, now)"
    by (cases c)
  have ok: "argsort_spec np_argsort" "set_iter_spec rows_iter" "set_iter_spec cols_iter"
    using Cons.prems(1) by (simp_all add: c)
  have "tracker_inv (update_with metric np_argsort rows_iter cols_iter t detections cam now)"
    using ok(1,3) Cons.prems(2) ok(2) by (rule update_with_inv)
  moreover have "map_of (objects (update_with metric np_argsort rows_iter cols_iter t
                                    detections cam now)) k = Some p"
    using ok(1,3) Cons.prems(2,3,4) ok(2) by (rule update_with_inactive_unchanged)
  ultimately show ?case using Cons.IH Cons.prems(1,4) by (simp add: c)
qed

lemma set_iter_spec_rev_sorted: "set_iter_spec (\<lambda>S. rev (sorted_list_of_set S))"
  unfolding set_iter_spec_def by simp

lemma registered_nth:
  "i < length cols \<Longrightarrow>
   map_of (registered n detections cam now cols) (n + int i) =
   Some (new_person (n + int i) (center (detections ! (cols ! i)))
           (det_bbox (detections ! (cols ! i))) (det_confidence (detections ! (cols ! i))) cam now)"
proof (induction cols arbitrary: n i)
  case Nil
  then show ?case by simp
next
  case (Cons col cols)
  show ?case
  proof (cases i)
    case 0
    then show ?thesis by simp
  next
    case (Suc j)
    then have "j < length cols" using Cons.prems by simp
    from Cons.IH [OF this, of "n + 1"] show ?thesis using Suc by (simp add: add.assoc)
  qed
qed

lemma new_cols_with_props:
  assumes "set_iter_spec cols_iter"
    and "active_objects t cam = [] \<Longrightarrow> M = []"
  shows "distinct (new_cols_with cols_iter t detections cam M)"
    and "set (new_cols_with cols_iter t detections cam M) = {0..<length detections} - snd ` set M"
proof -
  have f: "finite ({0..<length detections} - snd ` set M)" by simp
  have "distinct (cols_iter ({0..<length detections} - snd ` set M)) \<and>
        set (cols_iter ({0..<length detections} - snd ` set M)) = {0..<length detections} - snd ` set M"
    using assms(1) f unfolding set_iter_spec_def by blast
  then show "distinct (new_cols_with cols_iter t detections cam M)"
    and "set (new_cols_with cols_iter t detections cam M) = {0..<length detections} - snd ` set M"
    using assms(2) by (auto simp: new_cols_with_def)
qed

lemma matches_with_no_active:
  "active_objects t cam = [] \<Longrightarrow> matches_with metric np_argsort t detections cam = []"
  by (simp add: matches_with_def)

subsection \<open>The two models of the update\<close>

text \<open>
  \<open>update\<close> is \<open>update_with\<close> at exact Euclidean distances, the stable \<open>argsort\<close> and
  ascending set iteration: taking square roots changes no minimum, no first position of a
  minimum, no order of the rows and no outcome of the test against \<^verbatim>\<open>max_distance\<close>.
\<close>

lemma min_list_map_mono:
  fixes g :: "'a::linorder \<Rightarrow> 'b::linorder"
  assumes "\<And>a b. (g a \<le> g b) = (a \<le> b)" and "xs \<noteq> []"
  shows "min_list (map g xs) = g (min_list xs)"
  using assms(2)
proof (induction xs rule: min_list.induct)
  case (1 x xs)
  show ?case
  proof (cases xs)
    case Nil
    then show ?thesis by simp
  next
    case (Cons y ys)
    then have "min_list (map g xs) = g (min_list xs)" using 1 by simp
    moreover have "min (g x) (g (min_list xs)) = g (min x (min_list xs))"
      using assms(1) by (simp add: min_def)
    ultimately show ?thesis using Cons by simp
  qed
next
  case 2
  then show ?case by simp
qed

lemma index_of_map_inj:
  "inj g \<Longrightarrow> index_of (g a) (map g xs) = index_of a xs"
  by (induction xs) (auto dest: injD)

lemma argmin_map_mono:
  fixes g :: "'a::linorder \<Rightarrow> 'b::linorder"
  assumes "\<And>a b. (g a \<le> g b) = (a \<le> b)" and "xs \<noteq> []"
  shows "argmin (map g xs) = argmin xs"
proof -
  have "inj g"
  proof (rule injI)
    fix a b assume "g a = g b"
    then have "g a \<le> g b" "g b \<le> g a" by simp_all
    then show "a = b" using assms(1) by force
  qed
  then show ?thesis
    unfolding argmin_def min_list_map_mono [OF assms] by (rule index_of_map_inj)
qed

lemma insort_key_order_cong:
  fixes f :: "'a \<Rightarrow> 'b::linorder" and h :: "'a \<Rightarrow> 'c::linorder"
  assumes "\<forall>y \<in> set ys. (h x \<le> h y) = (f x \<le> f y)"
  shows "insort_key h x ys = insort_key f x ys"
  using assms by (induction ys) auto

lemma sort_key_order_cong:
  fixes f :: "'a \<Rightarrow> 'b::linorder" and h :: "'a \<Rightarrow> 'c::linorder"
  assumes "\<forall>x \<in> set xs. \<forall>y \<in> set xs. (h x \<le> h y) = (f x \<le> f y)"
  shows "sort_key h xs = sort_key f xs"
  using assms
proof (induction xs)
  case Nil
  then show ?case by simp
next
  case (Cons x xs)
  have IH: "sort_key h xs = sort_key f xs" using Cons by simp
  have "\<forall>y \<in> set (sort_key f xs). (h x \<le> h y) = (f x \<le> f y)" using Cons.prems by simp
  then show ?case by (simp add: IH insort_key_order_cong)
qed

lemma argsort_map_mono:
  fixes g :: "'a::linorder \<Rightarrow> 'b::linorder"
  assumes "\<And>a b. (g a \<le> g b) = (a \<le> b)"
  shows "argsort (map g ys) = argsort ys"
  unfolding argsort_def length_map
  by (rule sort_key_order_cong) (simp add: assms)

lemma foldl_cong_set:
  "(\<And>s x. x \<in> set xs \<Longrightarrow> f s x = g s x) \<Longrightarrow> foldl f a xs = foldl g a xs"
  by (induction xs arbitrary: a) auto

lemma sorted_list_of_set_diff_upt:
  "sorted_list_of_set ({0..<n} - U) = filter (\<lambda>r. r \<notin> U) [0..<n]"
proof -
  have "{0..<n} - U = set (filter (\<lambda>r. r \<notin> U) [0..<n])" by auto
  moreover have "sorted_list_of_set (set (filter (\<lambda>r. r \<notin> U) [0..<n])) = filter (\<lambda>r. r \<notin> U) [0..<n]"
    by (rule sorted_list_of_set.idem_if_sorted_distinct) (simp_all add: sorted_wrt_filter)
  ultimately show ?thesis by simp
qed

lemma matrix_with_euclidean:
  "matrix_with euclidean t detections cam =
   map (map (\<lambda>d. sqrt (real_of_int d))) (update_matrix t detections cam)"
  by (simp add: matrix_with_def update_matrix_def cdist_with_def cdist_def euclidean_sq_dist)

lemma update_matrix_entry:
  assumes "r < length (active_objects t cam)" "c < length detections"
  shows "update_matrix t detections cam ! r ! c =
         sq_dist (centroid (snd (active_objects t cam ! r))) (center (detections ! c))"
  using assms by (simp add: update_matrix_def cdist_def case_prod_unfold)

lemma update_is_update_with:
  "update t detections cam now = update_with euclidean argsort sorted_list_of_set sorted_list_of_set t detections cam now"
proof (cases "detections = [] \<or> active_objects t cam = []")
  case True
  show ?thesis
  proof (cases "detections = []")
    case True
    then show ?thesis by (simp add: update_def update_with_def)
  next
    case False
    then have "active_objects t cam = []" using True by simp
    then show ?thesis using False by (simp add: update_def update_with_def)
  qed
next
  case False
  then have ne: "detections \<noteq> []" "active_objects t cam \<noteq> []" by simp_all
  define g :: "int \<Rightarrow> real" where "g = (\<lambda>d. sqrt (real_of_int d))"
  have g: "(g a \<le> g b) = (a \<le> b)" for a b by (simp add: g_def)
  define D where "D = update_matrix t detections cam"
  define ids where "ids = map fst (active_objects t cam)"
  have DR: "matrix_with euclidean t detections cam = map (map g) D"
    unfolding D_def g_def by (rule matrix_with_euclidean)
  have lenD: "length D = length (active_objects t cam)" by (simp add: D_def length_update_matrix)
  have row: "length (D ! r) = length detections" if "r < length D" for r
    using that unfolding D_def lenD [unfolded D_def] by (rule update_matrix_row)
  have rne: "xs \<noteq> []" if "xs \<in> set D" for xs
  proof -
    from that obtain r where r: "r < length D" and x: "D ! r = xs"
      unfolding in_set_conv_nth by blast
    have "length xs = length detections" using row [OF r] x by simp
    then show ?thesis using ne(1) by auto
  qed
  have mins: "map min_list (map (map g) D) = map g (map min_list D)"
    using rne by (simp add: min_list_map_mono [OF g])
  have rows: "argsort (map min_list (map (map g) D)) = argsort (map min_list D)"
    unfolding mins by (rule argsort_map_mono [OF g])
  define rws where "rws = argsort (map min_list D)"
  have setr: "set rws = {0..<length D}" by (simp add: rws_def set_argsort)
  have cols: "map (\<lambda>row. argmin (map (map g) D ! row)) rws = map (\<lambda>row. argmin (D ! row)) rws"
  proof (rule map_cong [OF refl])
    fix r assume "r \<in> set rws"
    then have r: "r < length D" using setr by simp
    then have "D ! r \<noteq> []" using rne by simp
    then show "argmin (map (map g) D ! r) = argmin (D ! r)"
      using r by (simp add: argmin_map_mono [OF g])
  qed
  define cls where "cls = map (\<lambda>row. argmin (D ! row)) rws"
  have body: "match_body_with (map (map g) D) ids detections now s rc =
              match_body D ids detections now s rc" if "rc \<in> set (zip rws cls)" for s rc
  proof -
    obtain r c where rc: "rc = (r, c)" by (cases rc)
    have "r \<in> set rws" using that rc by (auto dest: set_zip_leftD)
    then have r: "r < length D" using setr by simp
    have "c = argmin (D ! r)" using that rc unfolding cls_def zip_map_self by auto
    moreover have "D ! r \<noteq> []" using r rne by simp
    ultimately have c: "c < length detections" using argmin_props(1) [of "D ! r"] row [OF r] by simp
    have e: "D ! r ! c = sq_dist (centroid (snd (active_objects t cam ! r))) (center (detections ! c))"
      unfolding D_def using r c lenD by (intro update_matrix_entry) simp_all
    have "map (map g) D ! r ! c = g (D ! r ! c)" using r c row [OF r] by simp
    also have "\<dots> = euclidean (centroid (snd (active_objects t cam ! r))) (center (detections ! c))"
      unfolding e g_def by (simp add: euclidean_sq_dist)
    finally have "(map (map g) D ! r ! c > bound) = exceeds (D ! r ! c) bound" for bound
      unfolding e by (simp add: euclidean_exceeds)
    then show ?thesis
      by (simp add: match_body_with_def match_body_def rc split: prod.splits)
  qed
  have loop: "foldl (match_body_with (map (map g) D) ids detections now) (t, {}, {}) (zip rws cls) =
              foldl (match_body D ids detections now) (t, {}, {}) (zip rws cls)"
    by (rule foldl_cong_set) (rule body)
  show ?thesis
    unfolding update_unfold [OF ne] update_with_unfold [OF ne] DR D_def [symmetric] Let_def
      rows rws_def [symmetric] cols cls_def [symmetric] ids_def [symmetric] loop
    by (simp add: sorted_list_of_set_diff_upt case_prod_unfold)
qed

subsection \<open>Nearest-detection assignment\<close>

lemma matrix_with_entry:
  assumes "r < length (active_objects t cam)" "c < length detections"
  shows "matrix_with metric t detections cam ! r ! c =
         metric (centroid (snd (active_objects t cam ! r))) (center (detections ! c))"
  using assms by (simp add: matrix_with_def cdist_with_def case_prod_unfold)

lemma match_trace_with_nearest_first:
  assumes srt: "argsort_spec np_argsort" and ne: "detections \<noteq> []"
  shows "set (match_trace_with bound (matrix_with metric t detections cam)
            (zip (np_argsort (map min_list (matrix_with metric t detections cam)))
               (map (\<lambda>row. argmin (matrix_with metric t detections cam ! row))
                  (np_argsort (map min_list (matrix_with metric t detections cam))))) {} {}) =
         nearest_first bound (matrix_with metric t detections cam)
           (np_argsort (map min_list (matrix_with metric t detections cam)))"
proof -
  define D where "D = matrix_with metric t detections cam"
  define rows where "rows = np_argsort (map min_list D)"
  define f where "f = (\<lambda>row. argmin (D ! row))"
  have lenD: "length D = length (active_objects t cam)" by (simp add: D_def length_matrix_with)
  have dr: "distinct rows" and setr: "set rows = {0..<length D}"
    and sr: "sorted (map (\<lambda>i. map min_list D ! i) rows)"
    using srt by (simp_all add: rows_def argsort_spec_def)
  have entry: "D ! r ! f r = min_list (D ! r)" if "r \<in> set rows" for r
  proof -
    have r: "r < length (active_objects t cam)" using that setr lenD by simp
    have "length (D ! r) = length detections" unfolding D_def using r by (rule matrix_with_row)
    then have "D ! r \<noteq> []" using ne by auto
    then show ?thesis unfolding f_def by (rule argmin_props(2))
  qed
  have e: "map (\<lambda>r. D ! r ! f r) rows = map (\<lambda>i. map min_list D ! i) rows"
    by (rule map_cong [OF refl]) (use entry setr in simp)
  have s: "sorted (map (\<lambda>r. D ! r ! f r) rows)" unfolding e by (rule sr)
  have "set (match_trace_with bound D (map (\<lambda>r. (r, f r)) rows) {} {}) =
        {(r, f r) | r. r \<in> set rows \<and> D ! r ! f r \<le> bound \<and> f r \<notin> {} \<and>
                       (\<forall>r' \<in> set (takeWhile (\<lambda>x. x \<noteq> r) rows). f r' \<noteq> f r)}"
    using dr _ s by (rule match_trace_with_sorted) simp
  also have "\<dots> = nearest_first bound D rows"
    unfolding nearest_first_def using entry by (auto simp: f_def)
  finally show ?thesis
    unfolding D_def [symmetric] rows_def [symmetric] f_def [symmetric] zip_map_self .
qed

text \<open>
  Claim C1, as the code has it. The statement is about \<open>update_with\<close>: it holds for
  whatever floats \<^verbatim>\<open>cdist\<close> returns, for every order in which \<^verbatim>\<open>argsort\<close> arranges rows of
  equal minimum, and for every iteration order of the two sets. For a non-empty set of
  active identities of the camera and a non-empty detection list, an identity proposes
  only its nearest detection (the first in input order among equally near ones); the
  identities are taken in the order \<open>rows\<close> that \<^verbatim>\<open>argsort\<close> returns, ascending in that
  nearest distance; and the pair of an identity with its nearest detection is assigned
  exactly when the distance does not exceed \<^verbatim>\<open>max_distance\<close> and no identity taken before
  it has the same nearest detection (the set \<open>nearest_first\<close>). These are the rows and
  columns the loop of lines 130--149 marks used, and the identities that leave the update
  with the detection's data; every other active identity of the camera, whatever
  detections are left, leaves it with one more missed frame.
\<close>

theorem update_assigns_nearest_first:
  fixes t :: CentroidTracker
  assumes srt: "argsort_spec np_argsort"
    and rit: "set_iter_spec rows_iter" and cit: "set_iter_spec cols_iter"
    and inv: "tracker_inv t"
    and ne: "detections \<noteq> []" and act: "active_objects t cam \<noteq> []"
  shows
   "(let ids = map fst (active_objects t cam);
         D = matrix_with metric t detections cam;
         rows = np_argsort (map min_list D);
         cols = map (\<lambda>row. argmin (D ! row)) rows;
         S = nearest_first (max_distance t) D rows;
         t' = update_with metric np_argsort rows_iter cols_iter t detections cam now
     in snd (foldl (match_body_with D ids detections now) (t, {}, {}) (zip rows cols)) =
          (fst ` S, snd ` S) \<and>
        set (matches_with metric np_argsort t detections cam) = (\<lambda>(r, c). (ids ! r, c)) ` S \<and>
        (\<forall>r < length ids. \<forall>p. map_of (objects t) (ids ! r) = Some p \<longrightarrow>
           map_of (objects t') (ids ! r) =
             Some (if r \<in> fst ` S then matched now (detections ! argmin (D ! r)) p
                   else disappear (max_disappeared t) now p)) \<and>
        distinct rows \<and> set rows = {0..<length ids} \<and>
        sorted (map (\<lambda>r. min_list (D ! r)) rows) \<and>
        (\<forall>r < length ids. \<forall>c < length detections.
           D ! r ! c = metric (centroid (snd (active_objects t cam ! r))) (center (detections ! c))) \<and>
        (\<forall>r < length ids. argmin (D ! r) < length detections \<and>
           D ! r ! argmin (D ! r) = min_list (D ! r) \<and>
           (\<forall>c < length detections. min_list (D ! r) \<le> D ! r ! c) \<and>
           (\<forall>c < argmin (D ! r). min_list (D ! r) < D ! r ! c)))"
proof -
  note A = srt cit inv ne act rit
  define ids where "ids = map fst (active_objects t cam)"
  define D where "D = matrix_with metric t detections cam"
  define rows where "rows = np_argsort (map min_list D)"
  define cols where "cols = map (\<lambda>row. argmin (D ! row)) rows"
  define S where "S = nearest_first (max_distance t) D rows"
  define t' where "t' = update_with metric np_argsort rows_iter cols_iter t detections cam now"
  define tr where "tr = match_trace_with (max_distance t) D (zip rows cols) {} {}"
  define M where "M = matches_with metric np_argsort t detections cam"
  have d: "distinct (map fst (objects t))" using A(3) by (simp add: tracker_inv_def)
  have dids: "distinct ids" unfolding ids_def by (rule active_ids_distinct [OF d])
  have lenD: "length D = length ids" by (simp add: D_def ids_def length_matrix_with)
  have n: "length ids = length (active_objects t cam)" by (simp add: ids_def)
  have dr: "distinct rows" and setr: "set rows = {0..<length ids}"
    and sr: "sorted (map (\<lambda>i. map min_list D ! i) rows)"
    using A(1) by (simp_all add: rows_def argsort_spec_def lenD)
  have trS: "set tr = S"
    unfolding tr_def S_def cols_def rows_def D_def
    by (rule match_trace_with_nearest_first [OF A(1,4)])
  have 1: "snd (foldl (match_body_with D ids detections now) (t, {}, {}) (zip rows cols)) =
          (fst ` S, snd ` S)"
    unfolding match_loop_trace_with tr_def [symmetric] trS by simp
  have um: "M = map (\<lambda>(row, col). (ids ! row, col)) tr"
    using A(4,5)
    by (simp add: M_def matches_with_def tr_def cols_def rows_def D_def ids_def Let_def)
  have 2: "set M = (\<lambda>(r, c). (ids ! r, c)) ` S" unfolding um using trS by simp
  have Srows: "r < length ids" if "(r, c) \<in> S" for r c
  proof -
    have "r \<in> set rows" using that by (auto simp: S_def nearest_first_def)
    then show ?thesis using setr by simp
  qed
  have Scol: "c = argmin (D ! r)" if "(r, c) \<in> S" for r c
    using that by (auto simp: S_def nearest_first_def)
  have dM: "distinct (map fst M)"
    unfolding M_def by (rule matches_with_props(1) [OF A(1) d])
  have 3: "map_of (objects t') (ids ! r) =
             Some (if r \<in> fst ` S then matched now (detections ! argmin (D ! r)) p
                   else disappear (max_disappeared t) now p)"
    if r: "r < length ids" and l: "map_of (objects t) (ids ! r) = Some p" for r p
  proof -
    have "ids ! r \<in> set (map fst (active_objects t cam))"
      using r unfolding ids_def [symmetric] by simp
    then have act: "is_active p \<and> camera_id p = cam"
      using active_ids_iff [OF d map_of_SomeD [OF l], of cam] by simp
    have pa: "person_after M (max_disappeared t) detections cam now (ids ! r) p =
          (if r \<in> fst ` S then matched now (detections ! argmin (D ! r)) p
                   else disappear (max_disappeared t) now p)"
    proof (cases "r \<in> fst ` S")
      case True
      then obtain c where rc: "(r, c) \<in> S" by force
      then have c: "c = argmin (D ! r)" by (rule Scol)
      have "(ids ! r, c) \<in> set M" unfolding 2 using rc by force
      then have "map_of M (ids ! r) = Some c" using dM by simp
      then show ?thesis using True c by (simp add: person_after_def)
    next
      case False
      have "ids ! r \<notin> fst ` set M"
      proof
        assume "ids ! r \<in> fst ` set M"
        then obtain r' c where rc: "(r', c) \<in> S" "ids ! r = ids ! r'" unfolding 2 by force
        then have "r = r'" using dids r Srows [OF rc(1)] by (simp add: nth_eq_iff_index_eq)
        then show False using False rc(1) by force
      qed
      then have "map_of M (ids ! r) = None" by (simp add: map_of_eq_None_iff)
      then show ?thesis using False act by (simp add: person_after_def)
    qed
    show ?thesis
      unfolding t'_def
      using update_with_lookup_old [OF A(1-3) l A(6), of metric detections cam now] pa
      by (simp add: M_def)
  qed
  have rowne: "length (D ! r) = length detections" if "r < length ids" for r
    unfolding D_def using that n by (intro matrix_with_row) simp
  have 4: "sorted (map (\<lambda>r. min_list (D ! r)) rows)"
  proof -
    have e: "map (\<lambda>r. min_list (D ! r)) rows = map (\<lambda>i. map min_list D ! i) rows"
      by (rule map_cong [OF refl]) (use setr lenD in simp)
    show ?thesis unfolding e by (rule sr)
  qed
  have 5: "D ! r ! c = metric (centroid (snd (active_objects t cam ! r))) (center (detections ! c))"
    if "r < length ids" "c < length detections" for r c
    unfolding D_def using that n by (intro matrix_with_entry) simp_all
  have 6: "argmin (D ! r) < length detections \<and>
           D ! r ! argmin (D ! r) = min_list (D ! r) \<and>
           (\<forall>c < length detections. min_list (D ! r) \<le> D ! r ! c) \<and>
           (\<forall>c < argmin (D ! r). min_list (D ! r) < D ! r ! c)" if "r < length ids" for r
  proof -
    have len: "length (D ! r) = length detections" using that by (rule rowne)
    then have ne: "D ! r \<noteq> []" using A(4) by auto
    show ?thesis using argmin_props [OF ne] by (simp add: len)
  qed
  show ?thesis
    unfolding Let_def ids_def [symmetric] D_def [symmetric] rows_def [symmetric]
      cols_def [symmetric] S_def [symmetric] t'_def [symmetric] M_def [symmetric]
    using 1 2 3 dr setr 4 5 6 by blast
qed

theorem update_assigns_nearest_first_witness:
  "argsort_spec argsort \<and> set_iter_spec sorted_list_of_set \<and> tracker_inv close_pair_tracker \<and>
   close_pair_frame \<noteq> [] \<and> active_objects close_pair_tracker ''cam1'' \<noteq> [] \<and>
   map fst (active_objects close_pair_tracker ''cam1'') = [1, 2] \<and>
   matrix_with euclidean close_pair_tracker close_pair_frame ''cam1'' = [[10, 60], [20, 30]] \<and>
   argsort (map min_list [[10, 60], [20, 30 :: real]]) = [0, 1] \<and>
   nearest_first 50 [[10, 60], [20, 30]] [0, 1] = {(0, 0)} \<and>
   set (matches_with euclidean argsort close_pair_tracker close_pair_frame ''cam1'') = {(1, 0)} \<and>
   snd (foldl (match_body_with [[10, 60], [20, 30]] [1, 2] close_pair_frame 1)
          (close_pair_tracker, {}, {}) [(0, 0), (1, 0)]) = ({0}, {0}) \<and>
   map_of (objects (update_with euclidean argsort sorted_list_of_set sorted_list_of_set
                      close_pair_tracker close_pair_frame ''cam1'' 1)) 1 =
     Some (matched 1 (detection_at (110, 100))
             (new_person 1 (100, 100) (75, 50, 50, 100) (9 / 10) ''cam1'' 0)) \<and>
   map_of (objects (update_with euclidean argsort sorted_list_of_set sorted_list_of_set
                      close_pair_tracker close_pair_frame ''cam1'' 1)) 2 =
     Some (disappear 5 1 (new_person 2 (130, 100) (105, 50, 50, 100) (9 / 10) ''cam1'' 0))"
proof -
  let ?p1 = "new_person 1 (100, 100) (75, 50, 50, 100) (9 / 10) ''cam1'' 0"
  let ?p2 = "new_person 2 (130, 100) (105, 50, 50, 100) (9 / 10) ''cam1'' 0"
  have s1: "argsort_spec argsort" by (rule argsort_spec_argsort)
  have s2: "set_iter_spec sorted_list_of_set" by (rule set_iter_spec_sorted)
  have i: "tracker_inv close_pair_tracker" by code_simp
  have a: "close_pair_frame \<noteq> []" by code_simp
  have b: "active_objects close_pair_tracker ''cam1'' \<noteq> []" by code_simp
  have ids: "map fst (active_objects close_pair_tracker ''cam1'') = [1, 2]" by code_simp
  have mw: "matrix_with euclidean close_pair_tracker close_pair_frame ''cam1'' =
            [[10, 60], [20, 30]]"
  proof -
    have a: "map (\<lambda>(k, obj). centroid obj) (active_objects close_pair_tracker ''cam1'') =
             [(100, 100), (130, 100)]" by code_simp
    have b: "map center close_pair_frame = [(110, 100), (160, 100)]" by code_simp
    have 1: "euclidean (100, 100) (110, 100) = 10"
      using euclidean_int [of "(100, 100)" "(110, 100)" 10] by (simp add: sq_dist_def)
    have 2: "euclidean (100, 100) (160, 100) = 60"
      using euclidean_int [of "(100, 100)" "(160, 100)" 60] by (simp add: sq_dist_def)
    have 3: "euclidean (130, 100) (110, 100) = 20"
      using euclidean_int [of "(130, 100)" "(110, 100)" 20] by (simp add: sq_dist_def)
    have 4: "euclidean (130, 100) (160, 100) = 30"
      using euclidean_int [of "(130, 100)" "(160, 100)" 30] by (simp add: sq_dist_def)
    show ?thesis unfolding matrix_with_def a b by (simp add: cdist_with_def 1 2 3 4)
  qed
  have rows: "argsort (map min_list [[10, 60], [20, 30 :: real]]) = [0, 1]" by code_simp
  have cols: "map (\<lambda>row. argmin ([[10, 60], [20, 30 :: real]] ! row)) [0, 1] = [0, 0]"
    by code_simp
  have md: "max_distance close_pair_tracker = 50" by code_simp
  have mx: "max_disappeared close_pair_tracker = 5" by code_simp
  have nf: "nearest_first 50 [[10, 60], [20, 30]] [0, 1] = {(0, 0)}" by code_simp
  have l1: "map_of (objects close_pair_tracker) 1 = Some ?p1" by code_simp
  have l2: "map_of (objects close_pair_tracker) 2 = Some ?p2" by code_simp
  have d0: "close_pair_frame ! 0 = detection_at (110, 100)" by code_simp
  have am: "argmin ([10, 60] :: real list) = 0" by code_simp
  note th = update_assigns_nearest_first [OF s1 s2 s2 i a b, of euclidean 1,
      unfolded Let_def mw ids rows cols md mx nf]
  have 1: "snd (foldl (match_body_with [[10, 60], [20, 30]] [1, 2] close_pair_frame 1)
          (close_pair_tracker, {}, {}) [(0, 0), (1, 0)]) = ({0}, {0})"
    using th [THEN conjunct1] by simp
  have 2: "set (matches_with euclidean argsort close_pair_tracker close_pair_frame ''cam1'') =
           {(1, 0)}"
    using th [THEN conjunct2, THEN conjunct1] by simp
  note th3 = th [THEN conjunct2, THEN conjunct2, THEN conjunct1, rule_format]
  have 3: "map_of (objects (update_with euclidean argsort sorted_list_of_set sorted_list_of_set
                      close_pair_tracker close_pair_frame ''cam1'' 1)) 1 =
     Some (matched 1 (detection_at (110, 100)) ?p1)"
    using th3 [of 0 ?p1] l1 d0 am by simp
  have 4: "map_of (objects (update_with euclidean argsort sorted_list_of_set sorted_list_of_set
                      close_pair_tracker close_pair_frame ''cam1'' 1)) 2 =
     Some (disappear 5 1 ?p2)"
    using th3 [of 1 ?p2] l2 by simp
  show ?thesis using s1 s2 i a b ids mw rows nf 1 2 3 4 by simp
qed

text \<open>
  The claim as stated fails. Identities 1 and 2 are at (100, 100) and (130, 100); the
  detections are at (110, 100) and (160, 100), at distances 10 and 60 from identity 1
  and 20 and 30 from identity 2. The reference algorithm of the specification assigns
  detection 0 to identity 1 and then detection 1 to identity 2 (distance 30, within 50).
  The code assigns detection 0 to identity 1 only: identity 2 proposes detection 0, its
  nearest, finds it taken and stays unmatched, and detection 1 becomes identity 3.
\<close>

theorem greedy_reference_counterexample:
  "map fst (active_objects close_pair_tracker ''cam1'') = [1, 2] \<and>
   map center close_pair_frame = [(110, 100), (160, 100)] \<and>
   max_distance close_pair_tracker = 50 \<and>
   update_matrix close_pair_tracker close_pair_frame ''cam1'' = [[100, 3600], [400, 900]] \<and>
   update_matches close_pair_tracker close_pair_frame ''cam1'' = [(1, 0)] \<and>
   reference_matches close_pair_tracker close_pair_frame ''cam1'' = [(1, 0), (2, 1)] \<and>
   set (update_matches close_pair_tracker close_pair_frame ''cam1'') \<noteq>
   set (reference_matches close_pair_tracker close_pair_frame ''cam1'') \<and>
   map (\<lambda>(k, p). (k, centroid p, disappeared_frames p))
     (objects (update close_pair_tracker close_pair_frame ''cam1'' 1)) =
     [(1, (110, 100), 0), (2, (130, 100), 1), (3, (160, 100), 0)]"
proof -
  have u: "update_matches close_pair_tracker close_pair_frame ''cam1'' = [(1, 0)]"
    by code_simp
  have r: "reference_matches close_pair_tracker close_pair_frame ''cam1'' = [(1, 0), (2, 1)]"
    by code_simp
  have 1: "map fst (active_objects close_pair_tracker ''cam1'') = [1, 2]" by code_simp
  have 2: "map center close_pair_frame = [(110, 100), (160, 100)]" by code_simp
  have 3: "max_distance close_pair_tracker = 50" by code_simp
  have 4: "update_matrix close_pair_tracker close_pair_frame ''cam1'' = [[100, 3600], [400, 900]]"
    by code_simp
  have 5: "map (\<lambda>(k, p). (k, centroid p, disappeared_frames p))
     (objects (update close_pair_tracker close_pair_frame ''cam1'' 1)) =
     [(1, (110, 100), 0), (2, (130, 100), 1), (3, (160, 100), 0)]" by code_simp
  have "set (update_matches close_pair_tracker close_pair_frame ''cam1'') \<noteq>
        set (reference_matches close_pair_tracker close_pair_frame ''cam1'')"
    unfolding u r by simp
  then show ?thesis using u r 1 2 3 4 5 by simp
qed

subsection \<open>Departure is final, but a later detection need not be a new identity\<close>

text \<open>
  Claim C7, as the code has it. In a well-formed tracker (a fresh tracker is one, and
  every update keeps it so), an identity that is inactive stays exactly as it is through
  every later sequence of updates, so it is never active again, and no update assigns it
  a detection. Of the detections of a later frame, those that the assignment \<open>M\<close> of the
  update pairs with an identity go to that identity, which was active on the camera
  before the update; each of the others, and so every detection when no identity of the
  camera is active, is registered exactly once as a new identity, with the ids
  \<open>next_object_id\<close>, \<open>next_object_id + 1\<close>, ... in the order of registration, all of them
  greater than every id issued before. The statement holds for whatever floats
  \<^verbatim>\<open>cdist\<close> returns and for every order \<^verbatim>\<open>argsort\<close> and the set iterations may take.
\<close>

theorem departed_never_assigned:
  fixes t :: CentroidTracker
  assumes srt: "argsort_spec np_argsort"
    and rit: "set_iter_spec rows_iter" and cit: "set_iter_spec cols_iter"
    and ok: "calls_ok calls" and inv: "tracker_inv t"
    and look: "map_of (objects t) k = Some p" and dep: "\<not> is_active p"
  shows
   "(let t' = update_with metric np_argsort rows_iter cols_iter t detections cam now;
         M = matches_with metric np_argsort t detections cam;
         new = new_cols_with cols_iter t detections cam M
     in map_of (objects (updates_with t calls)) k = Some p \<and>
        tracker_inv (updates_with t calls) \<and>
        k \<notin> fst ` set M \<and>
        distinct (map fst M) \<and> distinct (map snd M) \<and>
        (\<forall>(k', c) \<in> set M. c < length detections \<and>
           (\<exists>p'. map_of (objects t) k' = Some p' \<and> is_active p' \<and> camera_id p' = cam \<and>
                 map_of (objects t') k' = Some (matched now (detections ! c) p'))) \<and>
        (active_objects t cam = [] \<longrightarrow> M = []) \<and>
        distinct new \<and> set new = {0..<length detections} - snd ` set M \<and>
        next_object_id t' = next_object_id t + int (length new) \<and>
        (\<forall>i < length new.
           map_of (objects t') (next_object_id t + int i) =
           Some (new_person (next_object_id t + int i) (center (detections ! (new ! i)))
                   (det_bbox (detections ! (new ! i))) (det_confidence (detections ! (new ! i)))
                   cam now)) \<and>
        (\<forall>j \<in> set (map fst (objects t)). j < next_object_id t) \<and>
        map fst (objects t') =
          map fst (objects t) @ map (\<lambda>i. next_object_id t + int i) [0..<length new])"
proof -
  note A = srt cit inv look dep rit ok
  define t' where "t' = update_with metric np_argsort rows_iter cols_iter t detections cam now"
  define M where "M = matches_with metric np_argsort t detections cam"
  define new where "new = new_cols_with cols_iter t detections cam M"
  have d: "distinct (map fst (objects t))" using A(3) by (simp add: tracker_inv_def)
  have old: "j < next_object_id t" if "j \<in> set (map fst (objects t))" for j
    using that A(3) by (auto simp: tracker_inv_def list_all_iff)
  have 1: "map_of (objects (updates_with t calls)) k = Some p"
    using A(7,3,4,5) by (rule updates_with_inactive_unchanged)
  have 2: "tracker_inv (updates_with t calls)"
    using A(7,3) by (rule updates_with_inv)
  have 3: "k \<notin> fst ` set M"
    unfolding M_def using A(1,3,4) by (rule inactive_not_matched_with) (simp add: A(5))
  have 4: "distinct (map fst M)" "distinct (map snd M)"
    unfolding M_def using matches_with_props [OF A(1) d] by blast+
  have 5: "c < length detections \<and>
           (\<exists>p'. map_of (objects t) k' = Some p' \<and> is_active p' \<and> camera_id p' = cam \<and>
                 map_of (objects t') k' = Some (matched now (detections ! c) p'))"
    if kc: "(k', c) \<in> set M" for k' c
  proof -
    have c: "c < length detections"
      using matches_with_props(4) [OF A(1) d, of metric detections cam] kc
      unfolding M_def by force
    have "k' \<in> set (map fst (active_objects t cam))"
      using matches_with_props(3) [OF A(1) d, of metric detections cam] kc
      unfolding M_def by force
    then obtain p' where p': "(k', p') \<in> set (active_objects t cam)" by auto
    then have in_t: "(k', p') \<in> set (objects t)" and act: "is_active p' \<and> camera_id p' = cam"
      by (auto simp: active_objects_def)
    have l: "map_of (objects t) k' = Some p'" using d in_t by simp
    have "map_of M k' = Some c" using 4(1) kc by simp
    then have "person_after M (max_disappeared t) detections cam now k' p' =
               matched now (detections ! c) p'"
      by (simp add: person_after_def)
    then have "map_of (objects t') k' = Some (matched now (detections ! c) p')"
      unfolding t'_def
      using update_with_lookup_old [OF A(1-3) l A(6), of metric detections cam now]
      by (simp add: M_def)
    then show ?thesis using c l act by blast
  qed
  have 6: "active_objects t cam = [] \<longrightarrow> M = []"
    unfolding M_def by (simp add: matches_with_no_active)
  have 7: "distinct new" "set new = {0..<length detections} - snd ` set M"
    unfolding new_def using new_cols_with_props [OF A(2), of t cam M detections] 6 by blast+
  have 8: "next_object_id t' = next_object_id t + int (length new)"
    unfolding t'_def new_def M_def update_with_char [OF A(1-3,6)] by simp
  have 9: "map_of (objects t') (next_object_id t + int i) =
           Some (new_person (next_object_id t + int i) (center (detections ! (new ! i)))
                   (det_bbox (detections ! (new ! i))) (det_confidence (detections ! (new ! i)))
                   cam now)" if "i < length new" for i
  proof -
    have "next_object_id t + int i \<notin> set (map fst (objects t))" using old by fastforce
    then have "map_of (objects t) (next_object_id t + int i) = None"
      by (simp add: map_of_eq_None_iff)
    from update_with_lookup_new [OF A(1-3) this A(6), of metric detections cam now]
    show ?thesis unfolding t'_def using registered_nth [OF that] by (simp add: new_def M_def)
  qed
  have 10: "\<forall>j \<in> set (map fst (objects t)). j < next_object_id t" using old by blast
  have 11: "map fst (objects t') =
          map fst (objects t) @ map (\<lambda>i. next_object_id t + int i) [0..<length new]"
    unfolding t'_def new_def M_def update_with_char [OF A(1-3,6)]
    by (simp add: registered_keys comp_def case_prod_unfold)
  show ?thesis
    unfolding Let_def t'_def [symmetric] M_def [symmetric] new_def [symmetric]
    using 1 2 3 4 5 6 7 8 9 10 11 by blast
qed

theorem departed_never_assigned_witness:
  "argsort_spec argsort \<and> set_iter_spec sorted_list_of_set \<and>
   set_iter_spec (\<lambda>S. rev (sorted_list_of_set S)) \<and>
   calls_ok
     [(euclidean, argsort, sorted_list_of_set, sorted_list_of_set,
       [detection_at (125, 150)], ''cam1'', 8),
      (euclidean, argsort, sorted_list_of_set, sorted_list_of_set, [], ''cam1'', 9),
      (euclidean, argsort, sorted_list_of_set, \<lambda>S. rev (sorted_list_of_set S),
       [detection_at (125, 150), detection_at (430, 550)], ''cam1'', 10)] \<and>
   tracker_inv departed_and_active_tracker \<and>
   map_of (objects departed_and_active_tracker) 1 =
     Some ((new_person 1 (125, 150) (100, 100, 50, 100) (9 / 10) ''cam1'' 0)
             \<lparr>disappeared_frames := 6, last_seen := 6, is_active := False\<rparr>) \<and>
   map_of (objects (updates_with departed_and_active_tracker
     [(euclidean, argsort, sorted_list_of_set, sorted_list_of_set,
       [detection_at (125, 150)], ''cam1'', 8),
      (euclidean, argsort, sorted_list_of_set, sorted_list_of_set, [], ''cam1'', 9),
      (euclidean, argsort, sorted_list_of_set, \<lambda>S. rev (sorted_list_of_set S),
       [detection_at (125, 150), detection_at (430, 550)], ''cam1'', 10)])) 1 =
     Some ((new_person 1 (125, 150) (100, 100, 50, 100) (9 / 10) ''cam1'' 0)
             \<lparr>disappeared_frames := 6, last_seen := 6, is_active := False\<rparr>) \<and>
   matches_with euclidean argsort departed_and_active_tracker
     [detection_at (125, 150), detection_at (430, 550), detection_at (130, 550)] ''cam1'' =
     [(2, 0)] \<and>
   new_cols_with (\<lambda>S. rev (sorted_list_of_set S)) departed_and_active_tracker
     [detection_at (125, 150), detection_at (430, 550), detection_at (130, 550)] ''cam1''
     [(2, 0)] = [2, 1] \<and>
   next_object_id departed_and_active_tracker = 3 \<and>
   next_object_id
     (update_with euclidean argsort sorted_list_of_set (\<lambda>S. rev (sorted_list_of_set S))
        departed_and_active_tracker
        [detection_at (125, 150), detection_at (430, 550), detection_at (130, 550)] ''cam1'' 8) =
     5 \<and>
   map_of (objects
     (update_with euclidean argsort sorted_list_of_set (\<lambda>S. rev (sorted_list_of_set S))
        departed_and_active_tracker
        [detection_at (125, 150), detection_at (430, 550), detection_at (130, 550)] ''cam1'' 8))
     2 =
     Some (matched 8 (detection_at (125, 150))
             (new_person 2 (130, 150) (105, 100, 50, 100) (9 / 10) ''cam1'' 7)) \<and>
   map_of (objects
     (update_with euclidean argsort sorted_list_of_set (\<lambda>S. rev (sorted_list_of_set S))
        departed_and_active_tracker
        [detection_at (125, 150), detection_at (430, 550), detection_at (130, 550)] ''cam1'' 8))
     3 =
     Some (new_person 3 (130, 550) (105, 500, 50, 100) (9 / 10) ''cam1'' 8) \<and>
   map_of (objects
     (update_with euclidean argsort sorted_list_of_set (\<lambda>S. rev (sorted_list_of_set S))
        departed_and_active_tracker
        [detection_at (125, 150), detection_at (430, 550), detection_at (130, 550)] ''cam1'' 8))
     4 =
     Some (new_person 4 (430, 550) (405, 500, 50, 100) (9 / 10) ''cam1'' 8)"
proof -
  let ?p = "(new_person 1 (125, 150) (100, 100, 50, 100) (9 / 10) ''cam1'' 0)
             \<lparr>disappeared_frames := 6, last_seen := 6, is_active := False\<rparr>"
  let ?p2 = "new_person 2 (130, 150) (105, 100, 50, 100) (9 / 10) ''cam1'' 7"
  let ?T = departed_and_active_tracker
  let ?ds = "[detection_at (125, 150), detection_at (430, 550), detection_at (130, 550)]"
  let ?down = "\<lambda>S :: nat set. rev (sorted_list_of_set S)"
  let ?calls = "[(euclidean, argsort, sorted_list_of_set, sorted_list_of_set,
       [detection_at (125, 150)], ''cam1'', 8),
      (euclidean, argsort, sorted_list_of_set, sorted_list_of_set, [], ''cam1'', 9),
      (euclidean, argsort, sorted_list_of_set, ?down,
       [detection_at (125, 150), detection_at (430, 550)], ''cam1'', 10)]"
  let ?t' = "update_with euclidean argsort sorted_list_of_set ?down ?T ?ds ''cam1'' 8"
  have s1: "argsort_spec argsort" by (rule argsort_spec_argsort)
  have s2: "set_iter_spec sorted_list_of_set" by (rule set_iter_spec_sorted)
  have s3: "set_iter_spec ?down" by (rule set_iter_spec_rev_sorted)
  have ok: "calls_ok ?calls" by (simp add: calls_ok_def s1 s2 s3)
  have i: "tracker_inv ?T" by code_simp
  have l: "map_of (objects ?T) 1 = Some ?p" by code_simp
  have l2: "map_of (objects ?T) 2 = Some ?p2" by code_simp
  have n: "\<not> is_active ?p" by simp
  have nx: "next_object_id ?T = 3" by code_simp
  have mw: "matrix_with euclidean ?T ?ds ''cam1'' = [[5, 500, 400]]"
  proof -
    have a: "map (\<lambda>(k, obj). centroid obj) (active_objects ?T ''cam1'') = [(130, 150)]"
      by code_simp
    have b: "map center ?ds = [(125, 150), (430, 550), (130, 550)]" by code_simp
    have 1: "euclidean (130, 150) (125, 150) = 5"
      using euclidean_int [of "(130, 150)" "(125, 150)" 5] by (simp add: sq_dist_def)
    have 2: "euclidean (130, 150) (430, 550) = 500"
      using euclidean_int [of "(130, 150)" "(430, 550)" 500] by (simp add: sq_dist_def)
    have 3: "euclidean (130, 150) (130, 550) = 400"
      using euclidean_int [of "(130, 150)" "(130, 550)" 400] by (simp add: sq_dist_def)
    show ?thesis unfolding matrix_with_def a b by (simp add: cdist_with_def 1 2 3)
  qed
  have M: "matches_with euclidean argsort ?T ?ds ''cam1'' = [(2, 0)]"
    unfolding matches_with_def mw Let_def by code_simp
  have new: "new_cols_with ?down ?T ?ds ''cam1'' [(2, 0)] = [2, 1]" by code_simp
  note th = departed_never_assigned [OF s1 s2 s3 ok i l n, of euclidean ?ds "''cam1''" 8,
      unfolded Let_def M new]
  have 1: "map_of (objects (updates_with ?T ?calls)) 1 = Some ?p"
    using th by blast
  have 2: "next_object_id ?t' = 5"
  proof -
    have "next_object_id ?t' = next_object_id ?T + int (length [2, 1 :: nat])"
      using th by blast
    then show ?thesis by (simp add: nx)
  qed
  have 3: "map_of (objects ?t') 2 = Some (matched 8 (detection_at (125, 150)) ?p2)"
  proof -
    have "\<forall>(k', c) \<in> set [(2, 0 :: nat)]. c < length ?ds \<and>
           (\<exists>p'. map_of (objects ?T) k' = Some p' \<and> is_active p' \<and> camera_id p' = ''cam1'' \<and>
                 map_of (objects ?t') k' = Some (matched 8 (?ds ! c) p'))"
      using th by blast
    then show ?thesis using l2 by simp
  qed
  have new_ids: "\<forall>i < length [2, 1 :: nat].
           map_of (objects ?t') (next_object_id ?T + int i) =
           Some (new_person (next_object_id ?T + int i) (center (?ds ! ([2, 1] ! i)))
                   (det_bbox (?ds ! ([2, 1] ! i))) (det_confidence (?ds ! ([2, 1] ! i)))
                   ''cam1'' 8)"
    using th by blast
  have 4: "map_of (objects ?t') 3 =
           Some (new_person 3 (130, 550) (105, 500, 50, 100) (9 / 10) ''cam1'' 8)"
    using new_ids [rule_format, of 0] by (simp add: nx detection_at_def)
  have 5: "map_of (objects ?t') 4 =
           Some (new_person 4 (430, 550) (405, 500, 50, 100) (9 / 10) ''cam1'' 8)"
    using new_ids [rule_format, of 1] by (simp add: nx detection_at_def)
  show ?thesis using s1 s2 s3 ok i l M new nx 1 2 3 4 5 by simp
qed

text \<open>
  The claim as stated fails: a later detection does not always register a new identity.
  Identity 1 has departed, last seen at (125, 150); identity 2 is active at (130, 150).
  A detection at (125, 150), the very place where identity 1 was last seen, is at
  distance 5 from identity 2 and is assigned to it: identity 2 moves there, no identity
  is registered and \<^verbatim>\<open>next_object_id\<close> stays 3. Identity 1 stays departed.
\<close>

theorem departed_position_counterexample:
  "map (\<lambda>(k, p). (k, centroid p, is_active p, last_seen p)) (objects departed_and_active_tracker) =
     [(1, (125, 150), False, 6), (2, (130, 150), True, 7)] \<and>
   next_object_id departed_and_active_tracker = 3 \<and>
   map (\<lambda>(k, p). (k, centroid p, is_active p, last_seen p))
     (objects (update_with euclidean argsort sorted_list_of_set sorted_list_of_set departed_and_active_tracker
                 [detection_at (125, 150)] ''cam1'' 8)) =
     [(1, (125, 150), False, 6), (2, (125, 150), True, 8)] \<and>
   next_object_id (update_with euclidean argsort sorted_list_of_set sorted_list_of_set departed_and_active_tracker
                     [detection_at (125, 150)] ''cam1'' 8) = 3"
proof -
  have 1: "map (\<lambda>(k, p). (k, centroid p, is_active p, last_seen p))
             (objects departed_and_active_tracker) =
           [(1, (125, 150), False, 6), (2, (130, 150), True, 7)]" by code_simp
  have 2: "next_object_id departed_and_active_tracker = 3" by code_simp
  have 3: "map (\<lambda>(k, p). (k, centroid p, is_active p, last_seen p))
     (objects (update departed_and_active_tracker [detection_at (125, 150)] ''cam1'' 8)) =
     [(1, (125, 150), False, 6), (2, (125, 150), True, 8)]" by code_simp
  have 4: "next_object_id (update departed_and_active_tracker [detection_at (125, 150)] ''cam1'' 8) = 3"
    by code_simp
  show ?thesis using 1 2 3 4 unfolding update_is_update_with by simp
qed

end
